theory Spec2Isabelle
  imports Main "HOL-Library.Word"
begin

section \<open>Strings\<close>

text \<open>
  A JavaScript string is modelled as a \<^typ>\<open>string\<close>, one \<^typ>\<open>char\<close> per code unit
  (so the model covers the code units below 256). Numbers are modelled as unbounded
  integers: the numbers that the engine handles are line numbers, counters and the
  integer options \<open>grepContext\<close>, \<open>lineRange\<close>, \<open>maxLines\<close> and \<open>maxHunks\<close>, and the
  model is exact below \<open>2^53\<close>.
\<close>

definition newline :: char where
  "newline = CHR 0x0A"

definition backslash :: char where
  "backslash = CHR 0x5C"

text \<open>\<open>s.startsWith(p)\<close>\<close>

definition startsWith :: "string \<Rightarrow> string \<Rightarrow> bool" where
  "startsWith s p = (take (length p) s = p)"

text \<open>\<open>s.split("\n")\<close>: never empty, one more element than there are newlines.\<close>

fun splitLines :: "string \<Rightarrow> string list" where
  "splitLines [] = [[]]"
| "splitLines (c # cs) =
     (if c = newline then [] # splitLines cs
      else (case splitLines cs of
              [] \<Rightarrow> [[c]]
            | l # ls \<Rightarrow> (c # l) # ls))"

text \<open>\<open>xs.join(sep)\<close>\<close>

fun joinWith :: "string \<Rightarrow> string list \<Rightarrow> string" where
  "joinWith sep [] = []"
| "joinWith sep [x] = x"
| "joinWith sep (x # y # ys) = x @ sep @ joinWith sep (y # ys)"

text \<open>\<open>s.replace(pat, rep)\<close> with a string pattern: the first occurrence only.\<close>

fun replaceFirst :: "string \<Rightarrow> string \<Rightarrow> string \<Rightarrow> string" where
  "replaceFirst pat rep [] = (if pat = [] then rep else [])"
| "replaceFirst pat rep (c # cs) =
     (if startsWith (c # cs) pat then rep @ drop (length pat) (c # cs)
      else c # replaceFirst pat rep cs)"

definition isDigit :: "char \<Rightarrow> bool" where
  "isDigit c = (48 \<le> (of_char c :: nat) \<and> (of_char c :: nat) \<le> 57)"

text \<open>\<open>Number(digits)\<close> for a string of decimal digits.\<close>

definition parseNumber :: "string \<Rightarrow> int" where
  "parseNumber ds = foldl (\<lambda>a c. 10 * a + (int (of_char c) - 48)) 0 ds"

text \<open>The decimal text of a number, as a template literal prints it.\<close>

fun showNat :: "nat \<Rightarrow> string" where
  "showNat n =
     (if n < 10 then [char_of (48 + n)]
      else showNat (n div 10) @ [char_of (48 + n mod 10)])"

declare showNat.simps [simp del]

definition showInt :: "int \<Rightarrow> string" where
  "showInt i = (if i < 0 then CHR ''-'' # showNat (nat (- i)) else showNat (nat i))"

section \<open>Data model\<close>

record DiffHunk =
  header :: string
  lines :: "string list"
  oldStart :: int
  newStart :: int

record DiffFile =
  path :: string
  headerLines :: "string list"
  hunks :: "DiffHunk list"

section \<open>parseUnifiedDiff\<close>

text \<open>
  The pattern \<open>/^diff --git a\/(.+?) b\/(.+)$/\<close>. A dot matches any character but a
  line terminator; the first group is lazy, so it ends at the first \<open>" b/"\<close> after
  which a non-empty rest without line terminators reaches the end of the line.
  The result holds the two groups.
\<close>

definition isLineTerminator :: "char \<Rightarrow> bool" where
  "isLineTerminator c = (c = CHR 0x0A \<or> c = CHR 0x0D)"

fun lazyGroup :: "string \<Rightarrow> string \<Rightarrow> (string \<times> string) option" where
  "lazyGroup x [] = None"
| "lazyGroup x (c # cs) =
     (if startsWith (c # cs) '' b/'' \<and> drop 3 (c # cs) \<noteq> []
         \<and> (\<forall>d \<in> set (drop 3 (c # cs)). \<not> isLineTerminator d)
      then Some (x, drop 3 (c # cs))
      else if isLineTerminator c then None
      else lazyGroup (x @ [c]) cs)"

definition matchDiffGit :: "string \<Rightarrow> (string \<times> string) option" where
  "matchDiffGit line =
     (if startsWith line ''diff --git a/'' then
        (case drop 13 line of
           [] \<Rightarrow> None
         | c # cs \<Rightarrow> if isLineTerminator c then None else lazyGroup [c] cs)
      else None)"

text \<open>
  The pattern \<open>/@@ -(\d+)(?:,\d+)? \+(\d+)(?:,\d+)? @@/\<close>, searched anywhere in the
  line: \<open>matchHunkAt\<close> tries it at the start of a string, \<open>execHunkHeader\<close> finds the
  leftmost position at which it matches. The result holds the two groups of digits.
\<close>

definition skipCount :: "string \<Rightarrow> string" where
  "skipCount r =
     (case r of
        [] \<Rightarrow> r
      | c # cs \<Rightarrow> if c = CHR '','' \<and> takeWhile isDigit cs \<noteq> [] then dropWhile isDigit cs else r)"

definition matchHunkAt :: "string \<Rightarrow> (string \<times> string) option" where
  "matchHunkAt s =
     (if startsWith s ''@@ -'' then
        (let r1 = drop 4 s; d1 = takeWhile isDigit r1; r2 = skipCount (dropWhile isDigit r1) in
         if d1 = [] then None
         else if startsWith r2 '' +'' then
           (let r3 = drop 2 r2; d2 = takeWhile isDigit r3; r4 = skipCount (dropWhile isDigit r3) in
            if d2 = [] then None
            else if startsWith r4 '' @@'' then Some (d1, d2) else None)
         else None)
      else None)"

fun execHunkHeader :: "string \<Rightarrow> (string \<times> string) option" where
  "execHunkHeader [] = None"
| "execHunkHeader (c # cs) =
     (case matchHunkAt (c # cs) of
        Some m \<Rightarrow> Some m
      | None \<Rightarrow> execHunkHeader cs)"

text \<open>
  The state of the scan: the files finished so far and the file being built.
  In the source \<open>currentHunk\<close> is a reference to the last element of
  \<open>currentFile.hunks\<close>: both are reset together when a file starts and set together at
  a hunk header, so a hunk is open exactly when that list is not empty, and pushing a
  line to \<open>currentHunk.lines\<close> extends the last hunk of the current file.
\<close>

record ParseState =
  files :: "DiffFile list"
  currentFile :: "DiffFile option"

definition pushCurrent :: "ParseState \<Rightarrow> ParseState" where
  "pushCurrent st =
     (case currentFile st of
        Some f \<Rightarrow> \<lparr>files = files st @ [f], currentFile = None\<rparr>
      | None \<Rightarrow> \<lparr>files = files st, currentFile = None\<rparr>)"

definition pushHunkLine :: "string \<Rightarrow> DiffHunk list \<Rightarrow> DiffHunk list" where
  "pushHunkLine line hs = butlast hs @ [(last hs)\<lparr>lines := lines (last hs) @ [line]\<rparr>]"

definition parseLine :: "ParseState \<Rightarrow> string \<Rightarrow> ParseState" where
  "parseLine st line =
     (if startsWith line ''diff --git '' then
        (let st1 = pushCurrent st;
             p = (case matchDiffGit line of
                    Some m \<Rightarrow> snd m
                  | None \<Rightarrow> replaceFirst ''diff --git '' '''' line)
         in st1\<lparr>currentFile := Some \<lparr>path = p, headerLines = [line], hunks = []\<rparr>\<rparr>)
      else
        (case currentFile st of
           None \<Rightarrow> st
         | Some f \<Rightarrow>
             if startsWith line ''@@ '' then
               (let m = execHunkHeader line;
                    os = (case m of Some g \<Rightarrow> parseNumber (fst g) | None \<Rightarrow> 0);
                    ns = (case m of Some g \<Rightarrow> parseNumber (snd g) | None \<Rightarrow> 0);
                    h = \<lparr>header = line, lines = [line], oldStart = os, newStart = ns\<rparr>
                in st\<lparr>currentFile := Some (f\<lparr>hunks := hunks f @ [h]\<rparr>)\<rparr>)
             else if hunks f \<noteq> [] then
               st\<lparr>currentFile := Some (f\<lparr>hunks := pushHunkLine line (hunks f)\<rparr>)\<rparr>
             else
               st\<lparr>currentFile := Some (f\<lparr>headerLines := headerLines f @ [line]\<rparr>)\<rparr>))"

definition parseUnifiedDiff :: "string \<Rightarrow> DiffFile list" where
  "parseUnifiedDiff diff =
     files (pushCurrent (foldl parseLine \<lparr>files = [], currentFile = None\<rparr> (splitLines diff)))"

section \<open>filterDiffFiles\<close>

text \<open>
  A compiled regular expression is modelled by its \<open>test\<close> method (the patterns are
  compiled without flags, so \<open>test\<close> keeps no state). The \<open>RegExp\<close> constructor of the
  language is a parameter of the model: \<open>None\<close> stands for the \<open>SyntaxError\<close> it throws
  on a pattern that does not compile.
\<close>

type_synonym regex = "string \<Rightarrow> bool"

datatype error = SyntaxError

text \<open>\<open>pattern.replace(/[.*+?^${}()|[\]\\]/g, "\\$&")\<close>\<close>

definition isRegexSpecial :: "char \<Rightarrow> bool" where
  "isRegexSpecial c = (c \<in> set ''.*+?^${}()|[]'' \<or> c = backslash)"

definition escapeRegex :: "string \<Rightarrow> string" where
  "escapeRegex pat = concat (map (\<lambda>c. if isRegexSpecial c then [backslash, c] else [c]) pat)"

definition compileGrep :: "(string \<Rightarrow> regex option) \<Rightarrow> string option \<Rightarrow> error + regex option" where
  "compileGrep RegExp pattern =
     (case pattern of
        None \<Rightarrow> Inr None
      | Some p \<Rightarrow>
          if p = [] then Inr None
          else (case RegExp p of
                  Some r \<Rightarrow> Inr (Some r)
                | None \<Rightarrow>
                    (case RegExp (escapeRegex p) of
                       Some r \<Rightarrow> Inr (Some r)
                     | None \<Rightarrow> Inl SyntaxError)))"

record LineRange =
  rangeStart :: int
  rangeEnd :: int

record FilterOptions =
  paths :: "string list option"
  grep :: "string option"
  grepContext :: "int option"
  lineRange :: "LineRange option"

definition isAdded :: "string \<Rightarrow> bool" where
  "isAdded line = (startsWith line ''+'' \<and> \<not> startsWith line ''+++'')"

definition isRemoved :: "string \<Rightarrow> bool" where
  "isRemoved line = (startsWith line ''-'' \<and> \<not> startsWith line ''---'')"

definition isContext :: "string \<Rightarrow> bool" where
  "isContext line = startsWith line '' ''"

definition inRange :: "LineRange \<Rightarrow> int \<Rightarrow> bool" where
  "inRange lr n = (rangeStart lr \<le> n \<and> n \<le> rangeEnd lr)"

text \<open>
  The loop of \<open>sliceByRange\<close> over the lines of a hunk, with its four variables
  \<open>oldLine\<close>, \<open>newLine\<close>, \<open>collected\<close> and \<open>hasAny\<close>.
\<close>

fun sliceLoop :: "LineRange \<Rightarrow> string list \<Rightarrow> int \<Rightarrow> int \<Rightarrow> string list \<Rightarrow> bool
    \<Rightarrow> string list \<times> bool" where
  "sliceLoop lr [] oldLine newLine collected hasAny = (collected, hasAny)"
| "sliceLoop lr (line # rest) oldLine newLine collected hasAny =
     (if startsWith line ''@@'' then
        sliceLoop lr rest oldLine newLine (collected @ [line]) hasAny
      else if isAdded line then
        (if inRange lr newLine
         then sliceLoop lr rest oldLine (newLine + 1) (collected @ [line]) True
         else sliceLoop lr rest oldLine (newLine + 1) collected hasAny)
      else if isRemoved line then
        sliceLoop lr rest (oldLine + 1) newLine collected hasAny
      else if isContext line then
        (if inRange lr newLine
         then sliceLoop lr rest (oldLine + 1) (newLine + 1) (collected @ [line]) True
         else sliceLoop lr rest (oldLine + 1) (newLine + 1) collected hasAny)
      else sliceLoop lr rest oldLine newLine collected hasAny)"

definition sliceByRange :: "LineRange option \<Rightarrow> DiffHunk \<Rightarrow> DiffHunk option" where
  "sliceByRange rangeOpt hunk =
     (case rangeOpt of
        None \<Rightarrow> Some hunk
      | Some lr \<Rightarrow>
          (case sliceLoop lr (lines hunk) (oldStart hunk) (newStart hunk) [] False of
             (collected, hasAny) \<Rightarrow>
               if \<not> hasAny then None else Some (hunk\<lparr>lines := collected\<rparr>)))"

text \<open>
  \<open>applyGrep\<close>: the indices of the matching lines, then the set \<open>keep\<close> filled by the
  two nested loops (here the list of the indices added), then the lines whose index is
  in \<open>keep\<close> or is 0.
\<close>

definition matchLines :: "regex \<Rightarrow> string list \<Rightarrow> nat list" where
  "matchLines re ls = filter (\<lambda>i. re (ls ! i)) [0..<length ls]"

definition keepIndices :: "int \<Rightarrow> nat \<Rightarrow> nat list \<Rightarrow> int list" where
  "keepIndices ctx n ms =
     concat (map (\<lambda>idx. [max 0 (int idx - ctx) .. min (int n - 1) (int idx + ctx)]) ms)"

definition applyGrep :: "regex option \<Rightarrow> int \<Rightarrow> DiffHunk \<Rightarrow> DiffHunk option" where
  "applyGrep grp ctx hunk =
     (case grp of
        None \<Rightarrow> Some hunk
      | Some re \<Rightarrow>
          (let ms = matchLines re (lines hunk) in
           if ms = [] then None
           else if ctx \<le> 0 then Some hunk
           else
             (let keep = keepIndices ctx (length (lines hunk)) ms in
              Some (hunk\<lparr>lines :=
                map (\<lambda>i. lines hunk ! i)
                  (filter (\<lambda>i. int i \<in> set keep \<or> i = 0) [0..<length (lines hunk)])\<rparr>))))"

definition pathMatches :: "string list \<Rightarrow> DiffFile \<Rightarrow> bool" where
  "pathMatches ps file = (\<exists>p \<in> set ps. path file = p \<or> startsWith (path file) (p @ ''/''))"

definition filterHunk :: "LineRange option \<Rightarrow> regex option \<Rightarrow> int \<Rightarrow> DiffHunk \<Rightarrow> DiffHunk option" where
  "filterHunk rangeOpt grp ctx hunk =
     (case sliceByRange rangeOpt hunk of
        None \<Rightarrow> None
      | Some ranged \<Rightarrow> applyGrep grp ctx ranged)"

definition filterDiffFiles ::
    "(string \<Rightarrow> regex option) \<Rightarrow> DiffFile list \<Rightarrow> FilterOptions \<Rightarrow> error + DiffFile list" where
  "filterDiffFiles RegExp fs options =
     (let filtered =
            (case paths options of
               None \<Rightarrow> fs
             | Some ps \<Rightarrow> if ps = [] then fs else filter (pathMatches ps) fs)
      in case compileGrep RegExp (grep options) of
           Inl e \<Rightarrow> Inl e
         | Inr grp \<Rightarrow>
             (let ctx = (case grepContext options of None \<Rightarrow> 0 | Some c \<Rightarrow> c);
                  filteredFiles =
                    filter (\<lambda>file. hunks file \<noteq> [] \<or> headerLines file \<noteq> [])
                      (map (\<lambda>file. file\<lparr>hunks :=
                              List.map_filter (filterHunk (lineRange options) grp ctx) (hunks file)\<rparr>)
                         filtered)
              in if grp = None then Inr filteredFiles
                 else Inr (filter (\<lambda>file. hunks file \<noteq> []) filteredFiles)))"

section \<open>hunkLinkTarget\<close>

datatype side = R | L

fun targetLoop :: "string list \<Rightarrow> int \<Rightarrow> int \<Rightarrow> int option \<Rightarrow> int option
    \<Rightarrow> int option \<times> int option" where
  "targetLoop [] oldLine newLine firstAdded firstRemoved = (firstAdded, firstRemoved)"
| "targetLoop (line # rest) oldLine newLine firstAdded firstRemoved =
     (if startsWith line ''@@'' then targetLoop rest oldLine newLine firstAdded firstRemoved
      else if isAdded line then
        targetLoop rest oldLine (newLine + 1)
          (if firstAdded = None then Some newLine else firstAdded) firstRemoved
      else if isRemoved line then
        targetLoop rest (oldLine + 1) newLine firstAdded
          (if firstRemoved = None then Some oldLine else firstRemoved)
      else if isContext line then
        targetLoop rest (oldLine + 1) (newLine + 1) firstAdded firstRemoved
      else targetLoop rest oldLine newLine firstAdded firstRemoved)"

definition hunkLinkTarget :: "DiffHunk \<Rightarrow> int \<times> side" where
  "hunkLinkTarget hunk =
     (case targetLoop (lines hunk) (oldStart hunk) (newStart hunk) None None of
        (Some a, _) \<Rightarrow> (a, R)
      | (None, Some r) \<Rightarrow> (r, L)
      | (None, None) \<Rightarrow> (newStart hunk, R))"
section \<open>formatDiffOutput\<close>

subsection \<open>Links\<close>

text \<open>
  \<open>createHash("sha256").update(path).digest("hex")\<close>: the hash function of the
  platform is a parameter of the model (the digest as a 256-bit word); the hex encoding
  of the digest, 64 lower-case digits, is modelled here.
\<close>

definition hexDigit :: "nat \<Rightarrow> char" where
  "hexDigit n = ''0123456789abcdef'' ! (n mod 16)"

definition hexDigest :: "256 word \<Rightarrow> string" where
  "hexDigest w = map (\<lambda>i. hexDigit (unat (drop_bit (4 * (63 - i)) w) mod 16)) [0..<64]"

definition diffAnchor :: "(string \<Rightarrow> 256 word) \<Rightarrow> string \<Rightarrow> string" where
  "diffAnchor sha256 p = hexDigest (sha256 p)"

definition sideText :: "side \<Rightarrow> string" where
  "sideText s = (case s of R \<Rightarrow> ''R'' | L \<Rightarrow> ''L'')"

text \<open>
  \<open>buildGithubLink(prUrl, path, line?, side)\<close>; \<open>prUrl.replace(/\/$/, "")\<close> removes
  one slash at the end of the string.
\<close>

definition stripTrailingSlash :: "string \<Rightarrow> string" where
  "stripTrailingSlash u = (if u \<noteq> [] \<and> last u = CHR ''/'' then butlast u else u)"

definition buildGithubLink ::
    "(string \<Rightarrow> 256 word) \<Rightarrow> string \<Rightarrow> string \<Rightarrow> int option \<Rightarrow> side \<Rightarrow> string" where
  "buildGithubLink sha256 url p line sd =
     (let base = stripTrailingSlash url;
          anchor = ''diff-'' @ diffAnchor sha256 p
      in case line of
           Some n \<Rightarrow>
             if n \<noteq> 0 \<and> 0 < n
             then base @ ''/changes#'' @ anchor @ sideText sd @ showInt n
             else base @ ''/changes#'' @ anchor
         | None \<Rightarrow> base @ ''/changes#'' @ anchor)"

subsection \<open>Suggested ranges\<close>

definition isNewFileDiff :: "DiffFile \<Rightarrow> bool" where
  "isNewFileDiff file =
     (\<exists>line \<in> set (headerLines file).
        startsWith line ''--- /dev/null'' \<or> startsWith line ''new file mode'')"

text \<open>The two nested loops of \<open>computeFileLineRanges\<close> that find the least and the
  greatest new-file line number of the added and context lines.\<close>

fun rangeLineLoop :: "string list \<Rightarrow> int \<Rightarrow> int option \<Rightarrow> int option
    \<Rightarrow> int option \<times> int option" where
  "rangeLineLoop [] newLine minLine maxLine = (minLine, maxLine)"
| "rangeLineLoop (line # rest) newLine minLine maxLine =
     (if startsWith line ''@@'' then rangeLineLoop rest newLine minLine maxLine
      else if isAdded line then
        rangeLineLoop rest (newLine + 1)
          (if minLine = None then Some newLine else minLine) (Some newLine)
      else if isContext line then
        rangeLineLoop rest (newLine + 1)
          (if minLine = None then Some newLine else minLine) (Some newLine)
      else rangeLineLoop rest newLine minLine maxLine)"

fun rangeHunkLoop :: "DiffHunk list \<Rightarrow> int option \<Rightarrow> int option \<Rightarrow> int option \<times> int option" where
  "rangeHunkLoop [] minLine maxLine = (minLine, maxLine)"
| "rangeHunkLoop (hunk # rest) minLine maxLine =
     (case rangeLineLoop (lines hunk) (newStart hunk) minLine maxLine of
        (mn, mx) \<Rightarrow> rangeHunkLoop rest mn mx)"

text \<open>
  \<open>for (let start = minLine; start <= maxLine; start += chunkSize)\<close>: the loop does
  not end when \<open>chunkSize\<close> is not positive, so it is a partial function and \<open>None\<close>
  is the run that never returns.
\<close>

partial_function (option) chunkLoop :: "int \<Rightarrow> int \<Rightarrow> int \<Rightarrow> string list \<Rightarrow> string list option" where
  "chunkLoop start maxLine chunkSize ranges =
     (if start \<le> maxLine then
        chunkLoop (start + chunkSize) maxLine chunkSize
          (ranges @ [showInt start @ ''-'' @ showInt (min maxLine (start + chunkSize - 1))])
      else Some ranges)"

declare chunkLoop.simps [code]

definition computeFileLineRanges :: "DiffFile \<Rightarrow> int \<Rightarrow> string list option" where
  "computeFileLineRanges file chunkSize =
     (case rangeHunkLoop (hunks file) None None of
        (Some mn, Some mx) \<Rightarrow> chunkLoop mn mx chunkSize []
      | _ \<Rightarrow> Some [])"

text \<open>
  \<open>suggestedRanges\<close> is a plain object used as a dictionary. It is modelled by the list
  of its own properties in insertion order: an assignment to an existing key replaces
  the value in place, a new key goes to the end, and an assignment to \<open>__proto__\<close> sets
  the prototype and adds no property. \<open>Object.entries\<close> lists the keys that are array
  indices first, in ascending order, then the others in insertion order.
\<close>

fun setProperty :: "(string \<times> 'v) list \<Rightarrow> string \<Rightarrow> 'v \<Rightarrow> (string \<times> 'v) list" where
  "setProperty [] k v = (if k = ''__proto__'' then [] else [(k, v)])"
| "setProperty ((k', v') # rest) k v =
     (if k = ''__proto__'' then (k', v') # rest
      else if k' = k then (k, v) # rest
      else (k', v') # setProperty rest k v)"

definition isArrayIndex :: "string \<Rightarrow> bool" where
  "isArrayIndex k =
     (k \<noteq> [] \<and> (\<forall>c \<in> set k. isDigit c) \<and> (k = ''0'' \<or> hd k \<noteq> CHR ''0'')
      \<and> parseNumber k \<le> 4294967294)"

definition objectEntries :: "(string \<times> 'v) list \<Rightarrow> (string \<times> 'v) list" where
  "objectEntries obj =
     sort_key (\<lambda>e. parseNumber (fst e)) (filter (\<lambda>e. isArrayIndex (fst e)) obj)
     @ filter (\<lambda>e. \<not> isArrayIndex (fst e)) obj"

subsection \<open>The rendering loops\<close>

record RenderOptions =
  prUrl :: "string option"
  maxLines :: int
  maxHunks :: int

record RenderInfo =
  shownFiles :: int
  shownHunks :: int
  shownLines :: int
  truncated :: bool
  suggestedRanges :: "(string \<times> string list) list"

text \<open>The variables of \<open>formatDiffOutput\<close>: the counters that end up in \<open>info\<close>, and the
  two lists of blocks.\<close>

record RenderState = RenderInfo +
  blocks :: "string list"
  diffBlocks :: "string list"

record RenderOutput =
  text' :: string
  diffText :: string
  info :: RenderInfo

text \<open>The variables local to one iteration of the loop over the files.\<close>

record FileLocals =
  fileShown :: bool
  diffStarted :: bool
  prettyHeaderAdded :: bool

definition countLines :: "string \<Rightarrow> int" where
  "countLines s = int (length (splitLines s))"

definition addBlock :: "RenderState \<Rightarrow> string \<Rightarrow> RenderState" where
  "addBlock st s = st\<lparr>shownLines := shownLines st + countLines s, blocks := blocks st @ [s]\<rparr>"

text \<open>\<open>text.trim().length === 0\<close>: the text consists of white space and line terminators.\<close>

definition isWhiteSpace :: "char \<Rightarrow> bool" where
  "isWhiteSpace c = ((of_char c :: nat) \<in> {9, 10, 11, 12, 13, 32, 160})"

definition addDiffBlock :: "RenderState \<Rightarrow> string \<Rightarrow> RenderState" where
  "addDiffBlock st s =
     (if \<forall>c \<in> set s. isWhiteSpace c then st else st\<lparr>diffBlocks := diffBlocks st @ [s]\<rparr>)"

definition hasUrl :: "RenderOptions \<Rightarrow> bool" where
  "hasUrl options = (case prUrl options of None \<Rightarrow> False | Some u \<Rightarrow> u \<noteq> [])"

definition budgetReached :: "RenderOptions \<Rightarrow> RenderState \<Rightarrow> bool" where
  "budgetReached options st =
     (maxHunks options \<le> shownHunks st \<or> maxLines options \<le> shownLines st)"

fun prettyLoop :: "string list \<Rightarrow> int \<Rightarrow> int \<Rightarrow> string list \<Rightarrow> string list" where
  "prettyLoop [] oldLine newLine prettyLines = prettyLines"
| "prettyLoop (line # rest) oldLine newLine prettyLines =
     (if startsWith line ''@@'' then prettyLoop rest oldLine newLine prettyLines
      else if isAdded line then
        prettyLoop rest oldLine (newLine + 1)
          (prettyLines @ [''+'' @ showInt newLine @ '' '' @ drop 1 line])
      else if isRemoved line then
        prettyLoop rest (oldLine + 1) newLine
          (prettyLines @ [''-'' @ showInt oldLine @ '' '' @ drop 1 line])
      else if isContext line then
        prettyLoop rest (oldLine + 1) (newLine + 1)
          (prettyLines @ ['' '' @ showInt newLine @ '' '' @ drop 1 line])
      else prettyLoop rest oldLine newLine (prettyLines @ ['' '' @ showInt newLine @ '' '' @ line]))"

text \<open>The body of the loop over the hunks of a file, after the budget check.\<close>

definition renderHunk :: "(string \<Rightarrow> 256 word) \<Rightarrow> RenderOptions \<Rightarrow> DiffFile \<Rightarrow> DiffHunk
    \<Rightarrow> RenderState \<times> FileLocals \<Rightarrow> RenderState \<times> FileLocals" where
  "renderHunk sha256 options file hunk s =
     (let st = fst s; loc = snd s;
          remainingLines = maxLines options - shownLines st;
          fullLines = headerLines file @ lines hunk;
          hunkTruncated = (remainingLines < int (length fullLines));
          linesToRender =
            (if hunkTruncated then take (nat (max 0 (remainingLines - 1))) fullLines
             else fullLines);
          block = ''== '' @ path file @ '' (hunk +'' @ showInt (newStart hunk) @ '')'' @ [newline]
                  @ joinWith [newline] linesToRender
                  @ (if hunkTruncated then newline # ''... (truncated)'' else []);
          st1 = addBlock (st\<lparr>truncated := truncated st \<or> hunkTruncated\<rparr>) block;
          st2 = st1\<lparr>shownHunks := shownHunks st1 + 1\<rparr>;
          st3 = (if prettyHeaderAdded loc then st2 else addDiffBlock st2 (''  '' @ path file));
          st4 = addDiffBlock st3
                  (joinWith [newline] (prettyLoop (lines hunk) (oldStart hunk) (newStart hunk) []));
          st5 = (if diffStarted loc then addDiffBlock st4 [] else st4);
          st6 = (if hasUrl options then
                   addBlock st5 (''GitHub: '' @ buildGithubLink sha256 (the (prUrl options)) (path file)
                                    (Some (fst (hunkLinkTarget hunk))) (snd (hunkLinkTarget hunk)))
                 else st5)
      in (st6, \<lparr>fileShown = True, diffStarted = True, prettyHeaderAdded = True\<rparr>))"

fun hunkLoop :: "(string \<Rightarrow> 256 word) \<Rightarrow> RenderOptions \<Rightarrow> DiffFile \<Rightarrow> DiffHunk list
    \<Rightarrow> RenderState \<times> FileLocals \<Rightarrow> RenderState \<times> FileLocals" where
  "hunkLoop sha256 options file [] s = s"
| "hunkLoop sha256 options file (hunk # rest) s =
     (if budgetReached options (fst s) then ((fst s)\<lparr>truncated := True\<rparr>, snd s)
      else hunkLoop sha256 options file rest (renderHunk sha256 options file hunk s))"

text \<open>A file without hunks: one block of its header lines, never cut.\<close>

definition renderHeaderOnly :: "(string \<Rightarrow> 256 word) \<Rightarrow> RenderOptions \<Rightarrow> DiffFile
    \<Rightarrow> RenderState \<Rightarrow> RenderState" where
  "renderHeaderOnly sha256 options file st =
     (let st1 = addBlock st (''== '' @ path file @ [newline] @ joinWith [newline] (headerLines file));
          st2 = addDiffBlock st1 (''  '' @ path file);
          st3 = (if hasUrl options then
                   addBlock st2 (''GitHub: '' @ buildGithubLink sha256 (the (prUrl options)) (path file) None R)
                 else st2)
      in st3\<lparr>shownFiles := shownFiles st3 + 1\<rparr>)"

text \<open>What follows the loop over the hunks of a file.\<close>

definition finishFile :: "RenderOptions \<Rightarrow> DiffFile \<Rightarrow> RenderState \<times> FileLocals \<Rightarrow> RenderState option" where
  "finishFile options file s =
     (let st = fst s; loc = snd s in
      case (if truncated st \<and> isNewFileDiff file then
              map_option (\<lambda>ranges. st\<lparr>suggestedRanges := setProperty (suggestedRanges st) (path file) ranges\<rparr>)
                (computeFileLineRanges file (maxLines options))
            else Some st) of
        None \<Rightarrow> None
      | Some st1 \<Rightarrow>
          Some (if fileShown loc then st1\<lparr>shownFiles := shownFiles st1 + 1\<rparr> else st1))"

fun fileLoop :: "(string \<Rightarrow> 256 word) \<Rightarrow> RenderOptions \<Rightarrow> DiffFile list \<Rightarrow> RenderState
    \<Rightarrow> RenderState option" where
  "fileLoop sha256 options [] st = Some st"
| "fileLoop sha256 options (file # rest) st =
     (if budgetReached options st then Some (st\<lparr>truncated := True\<rparr>)
      else if hunks file = [] then
        fileLoop sha256 options rest (renderHeaderOnly sha256 options file st)
      else
        (case finishFile options file
                (hunkLoop sha256 options file (hunks file)
                   (st, \<lparr>fileShown = False, diffStarted = False, prettyHeaderAdded = False\<rparr>)) of
           None \<Rightarrow> None
         | Some st1 \<Rightarrow> fileLoop sha256 options rest st1))"

definition initialState :: RenderState where
  "initialState =
     \<lparr>shownFiles = 0, shownHunks = 0, shownLines = 0, truncated = False, suggestedRanges = [],
      blocks = [], diffBlocks = []\<rparr>"

definition truncationNote :: "RenderState \<Rightarrow> string" where
  "truncationNote st =
     (let rangeHints =
            joinWith [newline]
              (map (\<lambda>e. fst e @ '': '' @ joinWith '', '' (snd e))
                 (filter (\<lambda>e. snd e \<noteq> []) (objectEntries (suggestedRanges st))))
      in ''---'' @ [newline]
         @ ''Diff output truncated. The diff has already been shown to the user; do NOT show another diff unless the user explicitly asks.''
         @ (if rangeHints \<noteq> [] then newline # ''Suggested lineRange values:'' @ [newline] @ rangeHints
            else []))"

definition finalBlocks :: "RenderState \<Rightarrow> string list" where
  "finalBlocks st = (if truncated st then blocks st @ [truncationNote st] else blocks st)"

definition formatDiffOutput ::
    "(string \<Rightarrow> 256 word) \<Rightarrow> DiffFile list \<Rightarrow> RenderOptions \<Rightarrow> RenderOutput option" where
  "formatDiffOutput sha256 fs options =
     (if fs = [] then
        Some \<lparr>text' = ''No diff output (filters removed all hunks).'', diffText = [],
              info = \<lparr>shownFiles = 0, shownHunks = 0, shownLines = 0, truncated = False,
                      suggestedRanges = []\<rparr>\<rparr>
      else
        (case fileLoop sha256 options fs initialState of
           None \<Rightarrow> None
         | Some st \<Rightarrow>
             Some \<lparr>text' = joinWith [newline, newline] (finalBlocks st),
                   diffText = joinWith [newline] (diffBlocks st),
                   info = RenderInfo.truncate st\<rparr>))"

section \<open>Notions used to state the properties\<close>

subsection \<open>Replaying a hunk\<close>

text \<open>
  The replay of the lines of a hunk: every line with the values of the old and new
  line counters when it is reached. A removed line and a context line advance the old
  counter, an added line and a context line advance the new counter; any other line
  (the \<open>@@\<close> header, a \<open>+++\<close> or \<open>---\<close> line, a line without a prefix) advances neither.
  \<open>hunkTargetSpec\<close> is the target of a hunk as the specification words it: the number
  of the first added line of the replay, else of the first removed line, else
  \<open>newStart\<close>.
\<close>

definition advancesOld :: "string \<Rightarrow> bool" where
  "advancesOld line = (isRemoved line \<or> isContext line)"

definition advancesNew :: "string \<Rightarrow> bool" where
  "advancesNew line = (isAdded line \<or> isContext line)"

fun replayLines :: "int \<Rightarrow> int \<Rightarrow> string list \<Rightarrow> (string \<times> int \<times> int) list" where
  "replayLines oldLine newLine [] = []"
| "replayLines oldLine newLine (line # rest) =
     (line, oldLine, newLine) #
       replayLines (if advancesOld line then oldLine + 1 else oldLine)
                   (if advancesNew line then newLine + 1 else newLine) rest"

definition newNo :: "string \<times> int \<times> int \<Rightarrow> int" where
  "newNo e = snd (snd e)"

definition hunkTargetSpec :: "DiffHunk \<Rightarrow> int \<times> side" where
  "hunkTargetSpec hunk =
     (let rp = replayLines (oldStart hunk) (newStart hunk) (lines hunk) in
      case find (\<lambda>e. isAdded (fst e)) rp of
        Some e \<Rightarrow> (snd (snd e), R)
      | None \<Rightarrow>
          (case find (\<lambda>e. isRemoved (fst e)) rp of
             Some e \<Rightarrow> (fst (snd e), L)
           | None \<Rightarrow> (newStart hunk, R)))"

text \<open>The lines that the line-range stage keeps, in terms of the replay.\<close>

definition keptBySlice :: "LineRange \<Rightarrow> string \<times> int \<times> int \<Rightarrow> bool" where
  "keptBySlice lr e = (startsWith (fst e) ''@@'' \<or> (advancesNew (fst e) \<and> inRange lr (newNo e)))"

definition inRangeEntry :: "LineRange \<Rightarrow> string \<times> int \<times> int \<Rightarrow> bool" where
  "inRangeEntry lr e = (advancesNew (fst e) \<and> inRange lr (newNo e))"

subsection \<open>Invariants of parsed diffs\<close>

text \<open>
  \<open>headerFirst\<close>: the first element of \<open>lines\<close> is the \<open>@@\<close> header line of the hunk.
  \<open>allFiles\<close>: the files of a scan state, the one being built included. \<open>gitPath\<close>: the
  path that the parser gives to a file header line.
\<close>

definition headerFirst :: "DiffHunk \<Rightarrow> bool" where
  "headerFirst hunk =
     (case lines hunk of
        [] \<Rightarrow> False
      | l # _ \<Rightarrow> l = header hunk \<and> startsWith l ''@@'')"

definition allFiles :: "ParseState \<Rightarrow> DiffFile list" where
  "allFiles st = files st @ (case currentFile st of Some f \<Rightarrow> [f] | None \<Rightarrow> [])"

definition goodFile :: "DiffFile \<Rightarrow> bool" where
  "goodFile f = (headerLines f \<noteq> [] \<and> (\<forall>h \<in> set (hunks f). headerFirst h))"

definition gitPath :: "string \<Rightarrow> string" where
  "gitPath line = (case matchDiffGit line of Some m \<Rightarrow> snd m | None \<Rightarrow> replaceFirst ''diff --git '' '''' line)"

definition fileKey :: "DiffFile \<Rightarrow> string \<times> string" where
  "fileKey f = (path f, hd (headerLines f))"

text \<open>No line and no path of a parsed diff contains a newline.\<close>

definition noNewline :: "string \<Rightarrow> bool" where
  "noNewline s = (newline \<notin> set s)"

definition cleanFile :: "DiffFile \<Rightarrow> bool" where
  "cleanFile f =
     (noNewline (path f) \<and> (\<forall>l \<in> set (headerLines f). noNewline l)
      \<and> (\<forall>h \<in> set (hunks f). \<forall>l \<in> set (lines h). noNewline l))"

subsection \<open>Literal patterns\<close>

text \<open>\<open>line.includes(p)\<close>: the text \<open>p\<close> occurs in the line.\<close>

fun strIncludes :: "string \<Rightarrow> string \<Rightarrow> bool" where
  "strIncludes [] p = (p = [])"
| "strIncludes (c # cs) p = (startsWith (c # cs) p \<or> strIncludes cs p)"

text \<open>
  The syntax characters of the pattern grammar of the language are the fourteen
  characters \<open>^ $ . * + ? ( ) [ ] { } |\<close> and the backslash. A pattern made only of other
  characters and of syntax characters preceded by a backslash is a literal: every
  character of it matches itself, and \<open>literalPattern\<close> gives the text that it matches.
  \<open>literalRegExp\<close> is the constructor that accepts exactly these patterns.
\<close>

definition isSyntaxCharacter :: "char \<Rightarrow> bool" where
  "isSyntaxCharacter c = (c \<in> set ''^$.*+?()[]{}|'' \<or> c = backslash)"

fun literalPattern :: "string \<Rightarrow> string option" where
  "literalPattern [] = Some []"
| "literalPattern [c] = (if isSyntaxCharacter c then None else Some [c])"
| "literalPattern (c # d # cs) =
     (if c = backslash then
        (if isSyntaxCharacter d then map_option ((#) d) (literalPattern cs) else None)
      else if isSyntaxCharacter c then None
      else map_option ((#) c) (literalPattern (d # cs)))"

definition literalRegExp :: "string \<Rightarrow> regex option" where
  "literalRegExp p = map_option (\<lambda>lit line. strIncludes line lit) (literalPattern p)"

subsection \<open>The lines kept by the grep stage\<close>

text \<open>
  \<open>grepKeeps\<close>: the index is in the set \<open>keep\<close> or is 0. \<open>grepLines\<close>: the lines that
  \<open>applyGrep\<close> keeps when the context is positive. \<open>keptBefore\<close>: how many kept indices
  lie below an index, that is the position of a kept line in the result.
\<close>

definition grepKeeps :: "regex \<Rightarrow> int \<Rightarrow> string list \<Rightarrow> nat \<Rightarrow> bool" where
  "grepKeeps re ctx ls i =
     (int i \<in> set (keepIndices ctx (length ls) (matchLines re ls)) \<or> i = 0)"

definition keptBefore :: "(nat \<Rightarrow> bool) \<Rightarrow> nat \<Rightarrow> nat" where
  "keptBefore K i = length (filter K [0..<i])"

definition grepLines :: "regex \<Rightarrow> int \<Rightarrow> string list \<Rightarrow> string list" where
  "grepLines re ctx ls = map (\<lambda>i. ls ! i) (filter (grepKeeps re ctx ls) [0..<length ls])"

subsection \<open>The blocks of a rendering\<close>

text \<open>
  The texts that \<open>formatDiffOutput\<close> pushes to \<open>blocks\<close>: the whole block of a hunk (its
  title line, the header lines of the file, the lines of the hunk), the block of a hunk
  cut after \<open>k\<close> lines, the block of a file without hunks, and the link line of a hunk.
\<close>

definition cleanUrl :: "RenderOptions \<Rightarrow> bool" where
  "cleanUrl options = (case prUrl options of None \<Rightarrow> True | Some u \<Rightarrow> noNewline u)"

definition hunkTitle :: "DiffFile \<Rightarrow> DiffHunk \<Rightarrow> string" where
  "hunkTitle file hunk = ''== '' @ path file @ '' (hunk +'' @ showInt (newStart hunk) @ '')''"

definition fullHunkBlock :: "DiffFile \<Rightarrow> DiffHunk \<Rightarrow> string" where
  "fullHunkBlock file hunk =
     hunkTitle file hunk @ [newline] @ joinWith [newline] (headerLines file @ lines hunk)"

definition cutHunkBlock :: "DiffFile \<Rightarrow> DiffHunk \<Rightarrow> nat \<Rightarrow> string" where
  "cutHunkBlock file hunk k =
     hunkTitle file hunk @ [newline] @ joinWith [newline] (take k (headerLines file @ lines hunk))
     @ newline # ''... (truncated)''"

definition headerOnlyBlock :: "DiffFile \<Rightarrow> string" where
  "headerOnlyBlock file = ''== '' @ path file @ [newline] @ joinWith [newline] (headerLines file)"

definition hunkLinkBlock :: "(string \<Rightarrow> 256 word) \<Rightarrow> RenderOptions \<Rightarrow> DiffFile \<Rightarrow> DiffHunk \<Rightarrow> string" where
  "hunkLinkBlock sha256 options file hunk =
     ''GitHub: '' @ buildGithubLink sha256 (the (prUrl options)) (path file)
                      (Some (fst (hunkLinkTarget hunk))) (snd (hunkLinkTarget hunk))"

text \<open>
  Whether the loop cuts the block of a hunk in a given state, and the block that it
  pushes.
\<close>

definition hunkIsCut :: "RenderOptions \<Rightarrow> RenderState \<Rightarrow> DiffFile \<Rightarrow> DiffHunk \<Rightarrow> bool" where
  "hunkIsCut options st file hunk =
     (maxLines options - shownLines st < int (length (headerLines file @ lines hunk)))"

definition hunkBlock :: "RenderOptions \<Rightarrow> RenderState \<Rightarrow> DiffFile \<Rightarrow> DiffHunk \<Rightarrow> string" where
  "hunkBlock options st file hunk =
     (if hunkIsCut options st file hunk
      then cutHunkBlock file hunk (nat (max 0 (maxLines options - shownLines st - 1)))
      else fullHunkBlock file hunk)"

text \<open>
  The number of lines that the complete rendering of a diff counts: for every hunk its
  whole block and, with a base URL, its link line.
\<close>

definition fullHunkLines :: "(string \<Rightarrow> 256 word) \<Rightarrow> RenderOptions \<Rightarrow> DiffFile \<Rightarrow> DiffHunk \<Rightarrow> int" where
  "fullHunkLines sha256 options file hunk =
     countLines (fullHunkBlock file hunk)
     + (if hasUrl options then countLines (hunkLinkBlock sha256 options file hunk) else 0)"

definition fullFileLines :: "(string \<Rightarrow> 256 word) \<Rightarrow> RenderOptions \<Rightarrow> DiffFile \<Rightarrow> int" where
  "fullFileLines sha256 options file =
     sum_list (map (fullHunkLines sha256 options file) (hunks file))"

definition fullLineCount :: "(string \<Rightarrow> 256 word) \<Rightarrow> RenderOptions \<Rightarrow> DiffFile list \<Rightarrow> int" where
  "fullLineCount sha256 options fs = sum_list (map (fullFileLines sha256 options) fs)"

definition linkLines :: "RenderOptions \<Rightarrow> int" where
  "linkLines options = (if hasUrl options then 1 else 0)"

text \<open>
  The forms of a block: a whole block is a link line, the block of a file without hunks
  or the whole block of a hunk; a cut block is the block of a hunk cut before its last
  line. \<open>blocksInv\<close> is the invariant of the rendering loops.
\<close>

definition isLinkBlock :: "string \<Rightarrow> bool" where
  "isLinkBlock b = startsWith b ''GitHub: ''"

definition wholeBlock :: "DiffFile list \<Rightarrow> string \<Rightarrow> bool" where
  "wholeBlock fs b =
     (isLinkBlock b
      \<or> (\<exists>f \<in> set fs. hunks f = [] \<and> b = headerOnlyBlock f)
      \<or> (\<exists>f \<in> set fs. \<exists>h \<in> set (hunks f). b = fullHunkBlock f h))"

definition cutBlock :: "DiffFile list \<Rightarrow> string \<Rightarrow> bool" where
  "cutBlock fs b =
     (\<exists>f \<in> set fs. \<exists>h \<in> set (hunks f).
        \<exists>k \<in> set [0..<length (headerLines f @ lines h)]. b = cutHunkBlock f h k)"

definition blocksInv :: "DiffFile list \<Rightarrow> RenderState \<Rightarrow> bool" where
  "blocksInv fs st =
     (shownLines st = sum_list (map countLines (blocks st))
      \<and> (\<forall>b \<in> set (blocks st). wholeBlock fs b \<or> cutBlock fs b)
      \<and> (\<not> truncated st \<longrightarrow> (\<forall>b \<in> set (blocks st). wholeBlock fs b)))"

section \<open>Concrete inputs\<close>

text \<open>
  A one-file diff whose hunk starts at new-file line 10, has five context lines, one
  added line (new-file line 15) and one trailing context line (new-file line 16); the
  same diff without the trailing context line; and the options used with them.
\<close>

definition trailingContextDiff :: string where
  "trailingContextDiff =
     ''diff --git a/f.txt b/f.txt\<newline>--- a/f.txt\<newline>+++ b/f.txt\<newline>@@ -10,6 +10,7 @@\<newline> c10\<newline> c11\<newline> c12\<newline> c13\<newline> c14\<newline>+added\<newline> c16''"

definition addedLastHunk :: DiffHunk where
  "addedLastHunk =
     \<lparr>header = ''@@ -10,5 +10,6 @@'',
      lines = [''@@ -10,5 +10,6 @@'', '' c10'', '' c11'', '' c12'', '' c13'', '' c14'', ''+added''],
      oldStart = 10, newStart = 10\<rparr>"

definition rangeOnly :: "int \<Rightarrow> int \<Rightarrow> FilterOptions" where
  "rangeOnly s e =
     \<lparr>paths = None, grep = None, grepContext = None,
      lineRange = Some \<lparr>rangeStart = s, rangeEnd = e\<rparr>\<rparr>"

definition twoPathsDiff :: string where
  "twoPathsDiff =
     ''diff --git a/src/a.ts b/src/a.ts\<newline>@@ -1 +1 @@\<newline>-x\<newline>+y\<newline>diff --git a/src/a/b.ts b/src/a/b.ts\<newline>@@ -1 +1 @@\<newline>-u\<newline>+v''"

text \<open>
  A diff whose complete rendering has 20 lines (three file header lines and a hunk of
  sixteen lines under one title line); a diff with a single file without hunks whose
  rendering has 20 lines; a hash function for the examples; and the two counters of a
  rendering that the examples look at.
\<close>

definition twentyLineDiff :: string where
  "twentyLineDiff =
     ''diff --git a/g.txt b/g.txt\<newline>--- a/g.txt\<newline>+++ b/g.txt\<newline>@@ -1,0 +1,15 @@\<newline>+l1\<newline>+l2\<newline>+l3\<newline>+l4\<newline>+l5\<newline>+l6\<newline>+l7\<newline>+l8\<newline>+l9\<newline>+l10\<newline>+l11\<newline>+l12\<newline>+l13\<newline>+l14\<newline>+l15''"

definition headerOnlyDiff :: string where
  "headerOnlyDiff =
     ''diff --git a/old.bin b/new.bin\<newline>similarity index 100%\<newline>rename from old.bin\<newline>rename to new.bin\<newline>-- \<newline>2.43.0\<newline>\<newline>From 1111111111111111111111111111111111111111 Mon Sep 17 00:00:00 2001\<newline>From: A <a@example.org>\<newline>Date: Mon, 1 Jan 2024 00:00:00 +0000\<newline>Subject: [PATCH 2/2] second\<newline>\<newline>---\<newline> doc.txt | 1 +\<newline> 1 file changed, 1 insertion(+)\<newline> create mode 100644 doc.txt\<newline>\<newline>note one\<newline>note two''"

definition zeroDigest :: "string \<Rightarrow> 256 word" where
  "zeroDigest p = 0"

definition noFilter :: FilterOptions where
  "noFilter = \<lparr>paths = None, grep = None, grepContext = None, lineRange = None\<rparr>"

definition renderCounts :: "RenderOutput option \<Rightarrow> (int \<times> bool) option" where
  "renderCounts out = map_option (\<lambda>r. (shownLines (info r), truncated (info r))) out"

definition renderText :: "RenderOutput option \<Rightarrow> string option" where
  "renderText out = map_option text' out"

section \<open>Properties of the model\<close>

subsection \<open>Line kinds, the link target and the parser\<close>

lemma startsWith_Cons: "startsWith s (c # p) = (\<exists>t. s = c # t \<and> startsWith t p)"
  by (cases s) (auto simp: startsWith_def)

lemma startsWith_Nil [simp]: "startsWith s []"
  by (simp add: startsWith_def)

lemma lineKind_exclusive:
  "isAdded l \<Longrightarrow> \<not> isRemoved l \<and> \<not> isContext l \<and> \<not> startsWith l ''@@''"
  "isRemoved l \<Longrightarrow> \<not> isContext l \<and> \<not> startsWith l ''@@''"
  "isContext l \<Longrightarrow> \<not> startsWith l ''@@''"
  by (auto simp: isAdded_def isRemoved_def isContext_def startsWith_Cons)

lemma targetLoop_replay:
  "targetLoop ls ol nl fa fr =
     (case fa of Some a \<Rightarrow> Some a
        | None \<Rightarrow> map_option (\<lambda>e. snd (snd e)) (find (\<lambda>e. isAdded (fst e)) (replayLines ol nl ls)),
      case fr of Some r \<Rightarrow> Some r
        | None \<Rightarrow> map_option (\<lambda>e. fst (snd e)) (find (\<lambda>e. isRemoved (fst e)) (replayLines ol nl ls)))"
proof (induction ls arbitrary: ol nl fa fr)
  case Nil
  show ?case by (simp split: option.splits)
next
  case (Cons l ls)
  show ?case
    using lineKind_exclusive [of l]
    by (auto simp: Cons.IH advancesOld_def advancesNew_def split: option.splits)
qed

lemma files_pushCurrent: "files (pushCurrent st) = allFiles st"
  by (simp add: pushCurrent_def allFiles_def split: option.splits)

lemma headerFirst_pushHunkLine:
  assumes "\<forall>h \<in> set hs. headerFirst h" "hs \<noteq> []"
  shows "\<forall>h \<in> set (pushHunkLine line hs). headerFirst h"
proof -
  have l: "headerFirst (last hs)" using assms by simp
  have "headerFirst ((last hs)\<lparr>lines := lines (last hs) @ [line]\<rparr>)"
    using l by (auto simp: headerFirst_def split: list.splits)
  moreover have "\<forall>h \<in> set (butlast hs). headerFirst h"
    using assms(1) by (meson in_set_butlastD)
  ultimately show ?thesis by (auto simp: pushHunkLine_def)
qed

lemma startsWith_at_at: "startsWith l ''@@ '' \<Longrightarrow> startsWith l ''@@''"
  by (auto simp: startsWith_Cons)

lemma parseLine_good:
  assumes "\<forall>f \<in> set (allFiles st). goodFile f"
  shows "\<forall>f \<in> set (allFiles (parseLine st line)). goodFile f"
proof (cases "startsWith line ''diff --git ''")
  case True
  then show ?thesis using assms
    by (auto simp: parseLine_def allFiles_def pushCurrent_def goodFile_def Let_def
             split: option.splits)
next
  case False
  show ?thesis
  proof (cases "currentFile st")
    case None
    then show ?thesis using assms False by (simp add: parseLine_def)
  next
    case (Some f)
    then have gf: "goodFile f" and rest: "\<forall>g \<in> set (files st). goodFile g"
      using assms by (auto simp: allFiles_def)
    have hf: "headerFirst \<lparr>header = line, lines = [line], oldStart = a, newStart = b\<rparr>"
      if "startsWith line ''@@ ''" for a b
      using that by (simp add: headerFirst_def startsWith_at_at)
    have ph: "\<forall>h \<in> set (pushHunkLine line (hunks f)). headerFirst h" if "hunks f \<noteq> []"
    proof (rule headerFirst_pushHunkLine)
      show "\<forall>h \<in> set (hunks f). headerFirst h" using gf by (simp add: goodFile_def)
      show "hunks f \<noteq> []" by (rule that)
    qed
    show ?thesis using False Some gf rest hf ph
      by (auto simp: parseLine_def allFiles_def goodFile_def Let_def)
  qed
qed

lemma parseLine_keys:
  assumes "\<forall>f \<in> set (allFiles st). goodFile f"
  shows "map fileKey (allFiles (parseLine st line)) =
         map fileKey (allFiles st) @ (if startsWith line ''diff --git '' then [(gitPath line, line)] else [])"
proof (cases "startsWith line ''diff --git ''")
  case True
  then show ?thesis
    by (auto simp: parseLine_def allFiles_def pushCurrent_def Let_def fileKey_def gitPath_def
             split: option.splits)
next
  case False
  show ?thesis
  proof (cases "currentFile st")
    case None
    then show ?thesis using False by (simp add: parseLine_def)
  next
    case (Some f)
    then have "headerLines f \<noteq> []" using assms by (auto simp: allFiles_def goodFile_def)
    then show ?thesis using False Some
      by (auto simp: parseLine_def allFiles_def Let_def fileKey_def)
  qed
qed

lemma foldl_parseLine:
  assumes "\<forall>f \<in> set (allFiles st). goodFile f"
  shows "(\<forall>f \<in> set (allFiles (foldl parseLine st ls)). goodFile f) \<and>
         map fileKey (allFiles (foldl parseLine st ls)) =
           map fileKey (allFiles st) @
           map (\<lambda>l. (gitPath l, l)) (filter (\<lambda>l. startsWith l ''diff --git '') ls)"
  using assms
proof (induction ls arbitrary: st)
  case Nil
  then show ?case by simp
next
  case (Cons l ls)
  have g: "\<forall>f \<in> set (allFiles (parseLine st l)). goodFile f"
    using Cons.prems by (rule parseLine_good)
  show ?case
    using Cons.IH [OF g] parseLine_keys [OF Cons.prems, of l] by simp
qed

lemma parse_good: "\<forall>f \<in> set (parseUnifiedDiff diff). goodFile f"
  using foldl_parseLine [of "\<lparr>files = [], currentFile = None\<rparr>" "splitLines diff"]
  by (simp add: parseUnifiedDiff_def files_pushCurrent allFiles_def)

lemma parse_keys:
  "map fileKey (parseUnifiedDiff diff) =
     map (\<lambda>l. (gitPath l, l)) (filter (\<lambda>l. startsWith l ''diff --git '') (splitLines diff))"
  using foldl_parseLine [of "\<lparr>files = [], currentFile = None\<rparr>" "splitLines diff"]
  by (simp add: parseUnifiedDiff_def files_pushCurrent allFiles_def)

lemma replaceFirst_prefix: "startsWith s p \<Longrightarrow> replaceFirst p r s = r @ drop (length p) s"
  by (cases s) (auto simp: startsWith_def)

lemma gitPath_unmatched:
  assumes "startsWith line ''diff --git ''" and "matchDiffGit line = None"
  shows "gitPath line = drop 11 line"
proof -
  have len: "length ''diff --git '' = 11" by simp
  have "replaceFirst ''diff --git '' '''' line = '''' @ drop (length ''diff --git '') line"
    using assms(1) by (rule replaceFirst_prefix)
  then have "replaceFirst ''diff --git '' '''' line = drop 11 line"
    by (simp only: len append_Nil)
  then show ?thesis using assms(2) by (simp add: gitPath_def)
qed

lemma drop_changes:
  assumes "startsWith line ''diff --git ''"
  shows "drop 11 line \<noteq> line"
proof
  assume eq: "drop 11 line = line"
  have len: "length ''diff --git '' = 11" by simp
  have "take (length ''diff --git '') line = ''diff --git ''"
    using assms by (simp add: startsWith_def)
  then have "length (take 11 line) = 11" by (simp only: len)
  then have "11 \<le> length line" by simp
  then have "length (drop 11 line) < length line" by simp
  then show False by (simp only: eq less_irrefl)
qed

subsection \<open>The line-range stage and the header line\<close>

lemma sliceLoop_replay:
  "sliceLoop lr ls ol nl col any =
     (col @ map fst (filter (keptBySlice lr) (replayLines ol nl ls)),
      any \<or> (\<exists>e \<in> set (replayLines ol nl ls). inRangeEntry lr e))"
proof (induction ls arbitrary: ol nl col any)
  case Nil
  show ?case by simp
next
  case (Cons l ls)
  show ?case
    using lineKind_exclusive [of l]
    by (auto simp: Cons.IH advancesOld_def advancesNew_def keptBySlice_def inRangeEntry_def newNo_def)
qed

lemma replay_new_ge:
  "e \<in> set (replayLines ol nl ls) \<Longrightarrow> nl \<le> newNo e"
proof (induction ls arbitrary: ol nl)
  case Nil
  then show ?case by simp
next
  case (Cons l ls)
  then show ?case by (fastforce simp: newNo_def split: if_splits)
qed

lemma replay_new_distinct:
  "distinct (map newNo (filter (\<lambda>e. advancesNew (fst e)) (replayLines ol nl ls)))"
proof (induction ls arbitrary: ol nl)
  case Nil
  show ?case by simp
next
  case (Cons l ls)
  show ?case
  proof (cases "advancesNew l")
    case True
    have "\<forall>e \<in> set (replayLines (if advancesOld l then ol + 1 else ol) (nl + 1) ls). newNo e \<noteq> nl"
      using replay_new_ge by fastforce
    then show ?thesis using True Cons.IH by (auto simp: newNo_def)
  next
    case False
    then show ?thesis using Cons.IH by simp
  qed
qed

lemma filter_unique_key:
  "distinct (map f xs) \<Longrightarrow> x \<in> set xs \<Longrightarrow> filter (\<lambda>e. f e = f x) xs = [x]"
proof (induction xs)
  case Nil
  then show ?case by simp
next
  case (Cons y ys)
  show ?case
  proof (cases "y = x")
    case True
    then have "\<forall>e \<in> set ys. f e \<noteq> f x" using Cons.prems(1) by (auto intro: rev_image_eqI)
    then have "filter (\<lambda>e. f e = f x) ys = []" by (simp add: filter_empty_conv)
    then show ?thesis using True by simp
  next
    case False
    then have "x \<in> set ys" using Cons.prems(2) by simp
    moreover have "f y \<noteq> f x" using Cons.prems(1) \<open>x \<in> set ys\<close> by (auto intro: rev_image_eqI)
    ultimately show ?thesis using Cons by simp
  qed
qed

lemma sliceByRange_headerFirst:
  assumes "sliceByRange rangeOpt h = Some h'" and "headerFirst h"
  shows "headerFirst h' \<and> header h' = header h"
proof (cases rangeOpt)
  case None
  then show ?thesis using assms by (simp add: sliceByRange_def)
next
  case (Some lr)
  obtain l rest where ls: "lines h = l # rest" "l = header h" "startsWith l ''@@''"
    using assms(2) by (auto simp: headerFirst_def split: list.splits)
  have "h' = h\<lparr>lines := l # map fst (filter (keptBySlice lr)
           (replayLines (if advancesOld l then oldStart h + 1 else oldStart h)
                        (if advancesNew l then newStart h + 1 else newStart h) rest))\<rparr>"
    using assms(1) Some ls
    by (auto simp: sliceByRange_def sliceLoop_replay keptBySlice_def split: if_splits)
  then show ?thesis using ls by (simp add: headerFirst_def)
qed

lemma filter_upt_first:
  assumes "0 < n" and "P 0"
  shows "filter P [0..<n] = 0 # filter P [Suc 0..<n]"
  using assms by (simp add: upt_conv_Cons)

lemma applyGrep_headerFirst:
  assumes "applyGrep grp ctx h = Some h'" and "headerFirst h"
  shows "headerFirst h' \<and> header h' = header h"
proof -
  obtain l rest where ls: "lines h = l # rest" "l = header h" "startsWith l ''@@''"
    using assms(2) by (auto simp: headerFirst_def split: list.splits)
  define K where "K = (\<lambda>i. int i \<in> set (keepIndices ctx (length (lines h))
                        (matchLines (the grp) (lines h))) \<or> i = 0)"
  have f: "filter K [0..<length (lines h)] = 0 # filter K [Suc 0..<length (lines h)]"
    by (rule filter_upt_first) (simp_all add: ls K_def)
  have "h' = h \<or> h' = h\<lparr>lines := map (\<lambda>i. lines h ! i) (filter K [0..<length (lines h)])\<rparr>"
    using assms(1) by (auto simp: applyGrep_def Let_def K_def split: option.splits if_splits)
  then show ?thesis
  proof
    assume "h' = h" then show ?thesis using assms(2) by simp
  next
    assume "h' = h\<lparr>lines := map (\<lambda>i. lines h ! i) (filter K [0..<length (lines h)])\<rparr>"
    then have "h' = h\<lparr>lines := l # map (\<lambda>i. lines h ! i) (filter K [Suc 0..<length (lines h)])\<rparr>"
      by (simp only: f) (simp add: ls)
    then show ?thesis using ls by (simp add: headerFirst_def)
  qed
qed

lemma filterHunk_headerFirst:
  assumes "filterHunk rangeOpt grp ctx h = Some h'" and "headerFirst h"
  shows "headerFirst h' \<and> header h' = header h"
proof -
  obtain r where r: "sliceByRange rangeOpt h = Some r" "applyGrep grp ctx r = Some h'"
    using assms(1) by (auto simp: filterHunk_def split: option.splits)
  have "headerFirst r \<and> header r = header h"
    using r(1) assms(2) by (rule sliceByRange_headerFirst)
  then show ?thesis using applyGrep_headerFirst [OF r(2)] by simp
qed

lemma in_set_map_filter:
  "y \<in> set (List.map_filter f xs) \<longleftrightarrow> (\<exists>x \<in> set xs. f x = Some y)"
  by (induction xs) (auto split: option.splits)

lemma filterDiffFiles_origin:
  assumes "filterDiffFiles RegExp fs opts = Inr out" and "g \<in> set out"
  shows "\<exists>f \<in> set fs. \<exists>grp ctx. compileGrep RegExp (grep opts) = Inr grp \<and>
           g = f\<lparr>hunks := List.map_filter (filterHunk (lineRange opts) grp ctx) (hunks f)\<rparr>"
proof -
  obtain grp where grp: "compileGrep RegExp (grep opts) = Inr grp"
    using assms(1) by (auto simp: filterDiffFiles_def Let_def split: sum.splits)
  define ctx where "ctx = (case grepContext opts of None \<Rightarrow> 0 | Some c \<Rightarrow> c)"
  define filtered where "filtered = (case paths opts of None \<Rightarrow> fs
           | Some ps \<Rightarrow> if ps = [] then fs else filter (pathMatches ps) fs)"
  have sub: "set filtered \<subseteq> set fs"
    by (auto simp: filtered_def split: option.splits)
  have "g \<in> set (map (\<lambda>file. file\<lparr>hunks :=
           List.map_filter (filterHunk (lineRange opts) grp ctx) (hunks file)\<rparr>) filtered)"
    using assms grp
    by (auto simp: filterDiffFiles_def Let_def ctx_def filtered_def split: if_splits)
  then show ?thesis using sub grp by auto
qed

lemma filterDiffFiles_headerFirst:
  assumes "filterDiffFiles RegExp fs opts = Inr out"
      and "\<forall>f \<in> set fs. \<forall>h \<in> set (hunks f). headerFirst h"
  shows "\<forall>g \<in> set out. \<forall>h' \<in> set (hunks g). headerFirst h'"
proof (intro ballI)
  fix g h' assume g: "g \<in> set out" and h': "h' \<in> set (hunks g)"
  obtain f grp ctx where f: "f \<in> set fs"
      "g = f\<lparr>hunks := List.map_filter (filterHunk (lineRange opts) grp ctx) (hunks f)\<rparr>"
    using filterDiffFiles_origin [OF assms(1) g] by blast
  then obtain h where h: "h \<in> set (hunks f)" "filterHunk (lineRange opts) grp ctx h = Some h'"
    using h' by (auto simp: in_set_map_filter)
  then show "headerFirst h'" using filterHunk_headerFirst assms(2) f(1) by blast
qed

subsection \<open>Files without hunks and filters of a single kind\<close>

lemma map_filter_Nil_conv:
  "List.map_filter f xs = [] \<longleftrightarrow> (\<forall>x \<in> set xs. f x = None)"
  by (induction xs) (auto split: option.splits)

lemma map_filter_Some: "List.map_filter Some xs = xs"
  by (induction xs) auto

lemma filterHunk_plain: "filterHunk None None ctx = Some"
  by (rule ext) (simp add: filterHunk_def sliceByRange_def applyGrep_def)

lemma replay_fst: "map fst (replayLines ol nl ls) = ls"
  by (induction ls arbitrary: ol nl) auto

lemma replay_fst_in: "e \<in> set (replayLines ol nl ls) \<Longrightarrow> fst e \<in> set ls"
  using replay_fst [of ol nl ls] by (metis image_eqI set_map)

lemma filterHunk_range_only: "filterHunk r None ctx h = sliceByRange r h"
  by (simp add: filterHunk_def applyGrep_def split: option.splits)

lemma filterDiffFiles_single:
  "filterDiffFiles RegExp [f] \<lparr>paths = None, grep = None, grepContext = gc, lineRange = r\<rparr>
     = Inr (filter (\<lambda>file. hunks file \<noteq> [] \<or> headerLines file \<noteq> [])
              [f\<lparr>hunks := List.map_filter (sliceByRange r) (hunks f)\<rparr>])"
proof -
  have "filterHunk r None ctx = sliceByRange r" for ctx
    by (rule ext) (rule filterHunk_range_only)
  then show ?thesis
    by (simp add: filterDiffFiles_def compileGrep_def Let_def)
qed

lemma sliceByRange_Some:
  "sliceByRange (Some lr) h =
     (if \<exists>e \<in> set (replayLines (oldStart h) (newStart h) (lines h)). inRangeEntry lr e
      then Some (h\<lparr>lines := map fst (filter (keptBySlice lr)
                     (replayLines (oldStart h) (newStart h) (lines h)))\<rparr>)
      else None)"
  by (simp add: sliceByRange_def sliceLoop_replay)

subsection \<open>The grep stage is idempotent\<close>

lemma set_matchLines: "set (matchLines re ls) = {i. i < length ls \<and> re (ls ! i)}"
  by (auto simp: matchLines_def)

lemma in_keepIndices:
  "k \<in> set (keepIndices ctx n ms) \<longleftrightarrow>
     (\<exists>m \<in> set ms. max 0 (int m - ctx) \<le> k \<and> k \<le> min (int n - 1) (int m + ctx))"
  by (auto simp: keepIndices_def)

lemma grepKeeps_iff:
  assumes "i < length ls"
  shows "grepKeeps re ctx ls i \<longleftrightarrow>
           i = 0 \<or> (\<exists>m < length ls. re (ls ! m) \<and> \<bar>int i - int m\<bar> \<le> ctx)"
  using assms by (auto simp: grepKeeps_def in_keepIndices set_matchLines)

lemma keptBefore_nth:
  assumes "i < n" and "K i"
  shows "keptBefore K i < length (filter K [0..<n]) \<and> filter K [0..<n] ! keptBefore K i = i"
proof -
  have "[0..<n] = [0..<i] @ i # [Suc i..<n]"
    using assms(1) by (metis le_add1 less_imp_add_positive upt_add_eq_append upt_conv_Cons plus_nat.add_0 less_or_eq_imp_le)
  then have "filter K [0..<n] = filter K [0..<i] @ i # filter K [Suc i..<n]"
    using assms(2) by simp
  then show ?thesis by (simp add: keptBefore_def nth_append)
qed

lemma keptBefore_mono:
  assumes "a \<le> b"
  shows "keptBefore K a \<le> keptBefore K b \<and> keptBefore K b - keptBefore K a \<le> b - a"
proof -
  have "[0..<b] = [0..<a] @ [a..<b]"
    using assms by (metis le_add_diff_inverse upt_add_eq_append zero_le)
  then have "keptBefore K b = keptBefore K a + length (filter K [a..<b])"
    by (simp add: keptBefore_def)
  moreover have "length (filter K [a..<b]) \<le> b - a"
    using length_filter_le [of K "[a..<b]"] by simp
  ultimately show ?thesis by simp
qed

lemma keptBefore_dist:
  "\<bar>int (keptBefore K a) - int (keptBefore K b)\<bar> \<le> \<bar>int a - int b\<bar>"
proof (cases "a \<le> b")
  case True
  then show ?thesis using keptBefore_mono [of a b K] by linarith
next
  case False
  then have "b \<le> a" by simp
  then show ?thesis using keptBefore_mono [of b a K] by linarith
qed

lemma kept_index_origin:
  assumes "j < length (filter K [0..<n])"
  shows "\<exists>i < n. K i \<and> keptBefore K i = j \<and> filter K [0..<n] ! j = i"
proof -
  let ?I = "filter K [0..<n]"
  define x where "x = ?I ! j"
  have "x \<in> set ?I" unfolding x_def using assms by (rule nth_mem)
  then have "x < n" "K x" by auto
  then have i: "?I ! j < n" "K (?I ! j)" by (simp_all add: x_def)
  have kb: "keptBefore K (?I ! j) < length ?I" "?I ! keptBefore K (?I ! j) = ?I ! j"
    using keptBefore_nth [of "?I ! j" n K] i by simp_all
  have "distinct ?I" by simp
  then have "keptBefore K (?I ! j) = j"
    using kb assms by (simp add: nth_eq_iff_index_eq)
  then show ?thesis using i by blast
qed

lemma applyGrep_Some:
  "applyGrep (Some re) ctx h =
     (if matchLines re (lines h) = [] then None
      else if ctx \<le> 0 then Some h
      else Some (h\<lparr>lines := grepLines re ctx (lines h)\<rparr>))"
proof -
  have "(\<lambda>i. int i \<in> set (keepIndices ctx (length (lines h)) (matchLines re (lines h))) \<or> i = 0)
        = grepKeeps re ctx (lines h)"
    by (rule ext) (simp add: grepKeeps_def)
  then show ?thesis by (simp add: applyGrep_def Let_def grepLines_def)
qed

lemma grepLines_all_kept:
  assumes ctx: "0 < ctx" and j: "j < length (grepLines re ctx ls)"
  shows "grepKeeps re ctx (grepLines re ctx ls) j"
proof -
  let ?K = "grepKeeps re ctx ls"
  let ?I = "filter ?K [0..<length ls]"
  let ?ls' = "grepLines re ctx ls"
  have len: "length ?ls' = length ?I" by (simp add: grepLines_def)
  have nth: "?ls' ! k = ls ! (?I ! k)" if "k < length ?I" for k
    using that by (simp add: grepLines_def)
  obtain i where i: "i < length ls" "?K i" "keptBefore ?K i = j"
    using kept_index_origin [of j ?K "length ls"] j len by auto
  show ?thesis
  proof (cases "i = 0")
    case True
    then have "j = 0" using i(3) by (simp add: keptBefore_def)
    then show ?thesis by (simp add: grepKeeps_def)
  next
    case False
    then obtain m where m: "m < length ls" "re (ls ! m)" "\<bar>int i - int m\<bar> \<le> ctx"
      using i(1,2) by (auto simp: grepKeeps_iff)
    have Km: "?K m" using m(1,2) ctx by (auto simp: grepKeeps_iff)
    let ?jm = "keptBefore ?K m"
    have jm: "?jm < length ?I" "?I ! ?jm = m"
      using keptBefore_nth [of m "length ls" ?K] m(1) Km by simp_all
    have "re (?ls' ! ?jm)" using jm m(2) by (simp add: nth)
    moreover have "?jm < length ?ls'" using jm(1) len by simp
    moreover have "\<bar>int j - int ?jm\<bar> \<le> ctx"
      using keptBefore_dist [of ?K i m] m(3) i(3) by linarith
    ultimately show ?thesis using j by (auto simp: grepKeeps_iff)
  qed
qed

lemma grepLines_idem:
  assumes "0 < ctx"
  shows "grepLines re ctx (grepLines re ctx ls) = grepLines re ctx ls"
proof -
  let ?ls' = "grepLines re ctx ls"
  have "filter (grepKeeps re ctx ?ls') [0..<length ?ls'] = [0..<length ?ls']"
    by (rule filter_True) (use grepLines_all_kept [OF assms] in auto)
  then have "grepLines re ctx ?ls' = map (\<lambda>i. ?ls' ! i) [0..<length ?ls']"
    by (simp add: grepLines_def [of re ctx ?ls'])
  then show ?thesis by (simp add: map_nth)
qed

lemma grepLines_keeps_match:
  assumes "0 < ctx" and "matchLines re ls \<noteq> []"
  shows "matchLines re (grepLines re ctx ls) \<noteq> []"
proof -
  let ?K = "grepKeeps re ctx ls"
  let ?I = "filter ?K [0..<length ls]"
  obtain m where "m \<in> set (matchLines re ls)" using assms(2) by (cases "matchLines re ls") auto
  then have m: "m < length ls" "re (ls ! m)" by (simp_all add: set_matchLines)
  have Km: "?K m" using m assms(1) by (auto simp: grepKeeps_iff)
  let ?jm = "keptBefore ?K m"
  have jm: "?jm < length ?I" "?I ! ?jm = m"
    using keptBefore_nth [of m "length ls" ?K] m(1) Km by simp_all
  have "?jm < length (grepLines re ctx ls) \<and> re (grepLines re ctx ls ! ?jm)"
    using jm m(2) by (simp add: grepLines_def)
  then have "?jm \<in> set (matchLines re (grepLines re ctx ls))"
    by (simp add: set_matchLines)
  then show ?thesis by auto
qed

lemma applyGrep_idem:
  assumes "applyGrep grp ctx h = Some h'"
  shows "applyGrep grp ctx h' = Some h'"
proof (cases grp)
  case None
  then show ?thesis by (simp add: applyGrep_def)
next
  case (Some re)
  have ne: "matchLines re (lines h) \<noteq> []"
    using assms Some by (auto simp: applyGrep_Some split: if_splits)
  show ?thesis
  proof (cases "ctx \<le> 0")
    case True
    then have "h' = h" using assms Some ne by (simp add: applyGrep_Some)
    then show ?thesis using assms by simp
  next
    case False
    then have c: "0 < ctx" by simp
    have h': "h' = h\<lparr>lines := grepLines re ctx (lines h)\<rparr>"
      using assms Some ne False by (simp add: applyGrep_Some)
    show ?thesis
      using grepLines_keeps_match [OF c ne] grepLines_idem [OF c] False
      by (simp add: Some applyGrep_Some h')
  qed
qed

lemma map_filter_fixed:
  "(\<forall>x \<in> set xs. f x = Some x) \<Longrightarrow> List.map_filter f xs = xs"
  by (induction xs) auto


text \<open>
  Without a line range the filter is idempotent: the path stage looks only at the path,
  which no stage changes, the grep stage keeps a kept hunk whole, and the two final
  selections look only at what the first pass already selected on.
\<close>

lemma filterDiffFiles_idem:
  assumes lr: "lineRange opts = None"
      and out: "filterDiffFiles RegExp fs opts = Inr out"
  shows "filterDiffFiles RegExp out opts = Inr out"
proof -
  obtain grp where grp: "compileGrep RegExp (grep opts) = Inr grp"
    using out by (auto simp: filterDiffFiles_def Let_def split: sum.splits)
  define ctx where "ctx = (case grepContext opts of None \<Rightarrow> 0 | Some c \<Rightarrow> c)"
  define P where "P = (\<lambda>f :: DiffFile. case paths opts of None \<Rightarrow> True
                          | Some ps \<Rightarrow> ps = [] \<or> pathMatches ps f)"
  define M where "M = (\<lambda>file :: DiffFile. file\<lparr>hunks := List.map_filter (filterHunk None grp ctx) (hunks file)\<rparr>)"
  define C where "C = (\<lambda>file :: DiffFile. (hunks file \<noteq> [] \<or> headerLines file \<noteq> [])
                          \<and> (grp = None \<or> hunks file \<noteq> []))"
  have pf: "(case paths opts of None \<Rightarrow> xs | Some ps \<Rightarrow> if ps = [] then xs else filter (pathMatches ps) xs)
            = filter P xs" for xs
    by (auto simp: P_def split: option.splits)
  have F: "filterDiffFiles RegExp xs opts = Inr (filter C (map M (filter P xs)))" for xs
    unfolding filterDiffFiles_def pf
    by (auto simp: grp Let_def lr ctx_def M_def C_def intro: filter_cong)
  have o: "out = filter C (map M (filter P fs))" using out F by simp
  have fh: "filterHunk None grp ctx h = applyGrep grp ctx h" for h
    by (simp add: filterHunk_def sliceByRange_def)
  have Px: "P (M f) = P f" for f
    by (simp add: P_def M_def pathMatches_def split: option.splits)
  have Mx: "M (M f) = M f" for f
  proof -
    have "\<forall>x \<in> set (List.map_filter (filterHunk None grp ctx) (hunks f)). filterHunk None grp ctx x = Some x"
      by (auto simp: in_set_map_filter fh intro: applyGrep_idem)
    then show ?thesis by (simp add: M_def map_filter_fixed)
  qed
  have 1: "filter P out = out"
    by (rule filter_True) (auto simp: o Px)
  have 2: "map M out = out"
    by (rule map_idI) (auto simp: o Mx)
  have 3: "filter C out = out"
    by (rule filter_True) (auto simp: o)
  show ?thesis by (simp add: F 1 2 3)
qed
subsection \<open>Counting the lines of a rendering\<close>

lemma splitLines_nonempty [simp]: "splitLines s \<noteq> []"
  by (induction s) (auto split: list.splits)

lemma length_splitLines: "length (splitLines s) = Suc (count_list s newline)"
  by (induction s) (auto split: list.splits)

lemma countLines_pos: "0 < countLines s"
  by (simp add: countLines_def length_splitLines)

lemma countLines_append_newline:
  "countLines (a @ newline # b) = countLines a + countLines b"
  by (simp add: countLines_def length_splitLines)

lemma count_list_zero: "x \<notin> set xs \<Longrightarrow> count_list xs x = 0"
  by (induction xs) auto

lemma countLines_clean: "noNewline s \<Longrightarrow> countLines s = 1"
  by (simp add: countLines_def length_splitLines noNewline_def count_list_zero)

lemma noNewline_append [simp]: "noNewline (a @ b) \<longleftrightarrow> noNewline a \<and> noNewline b"
  by (auto simp: noNewline_def)

lemma noNewline_Cons: "noNewline (c # s) \<longleftrightarrow> c \<noteq> newline \<and> noNewline s"
  by (auto simp: noNewline_def)

lemma noNewline_Nil [simp]: "noNewline []"
  by (simp add: noNewline_def)

lemma countLines_joinWith:
  assumes "\<forall>x \<in> set xs. noNewline x" and "xs \<noteq> []"
  shows "countLines (joinWith [newline] xs) = int (length xs)"
  using assms
proof (induction xs rule: induct_list012)
  case 1
  then show ?case by simp
next
  case (2 x)
  then show ?case by (simp add: countLines_clean)
next
  case (3 x y ys)
  then show ?case by (simp add: countLines_append_newline countLines_clean)
qed

lemma countLines_joinWith_Nil: "countLines (joinWith [newline] []) = 1"
  by (simp add: countLines_def)

lemma countLines_joinWith_max:
  assumes "\<forall>x \<in> set xs. noNewline x"
  shows "countLines (joinWith [newline] xs) = max 1 (int (length xs))"
proof (cases "xs = []")
  case True
  then show ?thesis by (simp add: countLines_def)
next
  case False
  then have "1 \<le> int (length xs)" by (cases xs) simp_all
  then have "max 1 (int (length xs)) = int (length xs)" by simp
  then show ?thesis using countLines_joinWith [OF assms False] by simp
qed

lemma showNat_clean: "noNewline (showNat n)"
proof (induction n rule: showNat.induct)
  case (1 n)
  have d: "char_of (48 + k) \<noteq> newline" if "k < 10" for k :: nat
  proof
    assume "char_of (48 + k) = newline"
    then have "(of_char (char_of (48 + k) :: char) :: nat) = of_char newline" by simp
    then have "(48 + k) mod 256 = (10 :: nat)" by (simp add: newline_def)
    then show False using that by simp
  qed
  show ?case
  proof (cases "n < 10")
    case True
    then show ?thesis using d [of n] by (subst showNat.simps) (simp add: noNewline_Cons)
  next
    case False
    have "n mod 10 < 10" by simp
    then have "char_of (48 + n mod 10) \<noteq> newline" by (rule d)
    then show ?thesis using False 1
      by (subst showNat.simps) (simp add: noNewline_Cons)
  qed
qed

lemma showInt_clean: "noNewline (showInt i)"
  by (simp add: showInt_def noNewline_Cons showNat_clean newline_def)

lemma hexDigit_clean: "hexDigit n \<noteq> newline"
proof -
  have "n mod 16 < length ''0123456789abcdef''" by simp
  then have "hexDigit n \<in> set ''0123456789abcdef''"
    unfolding hexDigit_def by (rule nth_mem)
  then show ?thesis by (auto simp: newline_def)
qed

lemma hexDigest_clean: "noNewline (hexDigest w)"
proof -
  have "\<forall>c \<in> set (hexDigest w). c \<noteq> newline"
    unfolding hexDigest_def using hexDigit_clean by (simp add: image_iff)
  then show ?thesis unfolding noNewline_def by blast
qed

lemma stripTrailingSlash_clean: "noNewline u \<Longrightarrow> noNewline (stripTrailingSlash u)"
  by (auto simp: stripTrailingSlash_def noNewline_def dest: in_set_butlastD)

lemma literal_clean:
  "noNewline ''/changes#''" "noNewline ''diff-''" "noNewline ''GitHub: ''"
  "noNewline ''== ''" "noNewline '' (hunk +''" "noNewline '')''" "noNewline ''... (truncated)''"
  by (simp_all add: noNewline_def newline_def)

lemma buildGithubLink_clean:
  assumes "noNewline u"
  shows "noNewline (buildGithubLink sha256 u p line sd)"
  using assms stripTrailingSlash_clean [OF assms]
  by (cases sd)
     (auto simp: buildGithubLink_def Let_def diffAnchor_def hexDigest_clean showInt_clean
        literal_clean sideText_def noNewline_Cons newline_def split: option.splits)

lemma addDiffBlock_fields [simp]:
  "blocks (addDiffBlock st s) = blocks st"
  "shownLines (addDiffBlock st s) = shownLines st"
  "shownHunks (addDiffBlock st s) = shownHunks st"
  "shownFiles (addDiffBlock st s) = shownFiles st"
  "truncated (addDiffBlock st s) = truncated st"
  "suggestedRanges (addDiffBlock st s) = suggestedRanges st"
  by (simp_all add: addDiffBlock_def)

lemma addBlock_fields [simp]:
  "blocks (addBlock st s) = blocks st @ [s]"
  "shownLines (addBlock st s) = shownLines st + countLines s"
  "shownHunks (addBlock st s) = shownHunks st"
  "shownFiles (addBlock st s) = shownFiles st"
  "truncated (addBlock st s) = truncated st"
  "suggestedRanges (addBlock st s) = suggestedRanges st"
  by (simp_all add: addBlock_def)

lemma renderHunk_fields:
  "blocks (fst (renderHunk sha256 options file hunk (st, loc)))
     = blocks st @ [hunkBlock options st file hunk]
       @ (if hasUrl options then [hunkLinkBlock sha256 options file hunk] else [])"
  "shownLines (fst (renderHunk sha256 options file hunk (st, loc)))
     = shownLines st + countLines (hunkBlock options st file hunk)
       + (if hasUrl options then countLines (hunkLinkBlock sha256 options file hunk) else 0)"
  "truncated (fst (renderHunk sha256 options file hunk (st, loc)))
     = (truncated st \<or> hunkIsCut options st file hunk)"
  "shownHunks (fst (renderHunk sha256 options file hunk (st, loc))) = shownHunks st + 1"
  "shownFiles (fst (renderHunk sha256 options file hunk (st, loc))) = shownFiles st"
  "suggestedRanges (fst (renderHunk sha256 options file hunk (st, loc))) = suggestedRanges st"
  "fileShown (snd (renderHunk sha256 options file hunk (st, loc)))"
  by (simp_all add: renderHunk_def Let_def hunkBlock_def hunkIsCut_def cutHunkBlock_def
        fullHunkBlock_def hunkTitle_def hunkLinkBlock_def)

lemma hunkLoop_inv:
  assumes "P (fst s)"
      and "\<And>st. P st \<Longrightarrow> P (st\<lparr>truncated := True\<rparr>)"
      and "\<And>st loc h. P st \<Longrightarrow> h \<in> set hs \<Longrightarrow> \<not> budgetReached options st
             \<Longrightarrow> P (fst (renderHunk sha256 options f h (st, loc)))"
  shows "P (fst (hunkLoop sha256 options f hs s))"
  using assms
proof (induction hs arbitrary: s)
  case Nil
  then show ?case by simp
next
  case (Cons h hs)
  show ?case
  proof (cases "budgetReached options (fst s)")
    case True
    then show ?thesis using Cons.prems(1,2) by simp
  next
    case False
    have "P (fst (renderHunk sha256 options f h (fst s, snd s)))"
      using Cons.prems(1) False by (intro Cons.prems(3)) simp_all
    then have "P (fst (hunkLoop sha256 options f hs (renderHunk sha256 options f h s)))"
      using Cons.prems(2,3) by (intro Cons.IH) simp_all
    then show ?thesis using False by simp
  qed
qed

lemma fileLoop_inv_aux:
  assumes "P st"
      and "\<And>st. P st \<Longrightarrow> P (st\<lparr>truncated := True\<rparr>)"
      and "\<And>st loc f h. P st \<Longrightarrow> f \<in> set fs \<Longrightarrow> h \<in> set (hunks f)
             \<Longrightarrow> \<not> budgetReached options st
             \<Longrightarrow> P (fst (renderHunk sha256 options f h (st, loc)))"
      and "\<And>st f. P st \<Longrightarrow> f \<in> set fs \<Longrightarrow> hunks f = [] \<Longrightarrow> \<not> budgetReached options st
             \<Longrightarrow> P (renderHeaderOnly sha256 options f st)"
      and "\<And>s st' f. P (fst s) \<Longrightarrow> f \<in> set fs \<Longrightarrow> finishFile options f s = Some st' \<Longrightarrow> P st'"
      and "set gs \<subseteq> set fs"
      and "fileLoop sha256 options gs st = Some st'"
  shows "P st'"
  using assms(1,6,7)
proof (induction gs arbitrary: st)
  case Nil
  then show ?case by simp
next
  case (Cons g gs)
  have g: "g \<in> set fs" and gs: "set gs \<subseteq> set fs" using Cons.prems(2) by auto
  show ?case
  proof (cases "budgetReached options st")
    case True
    then show ?thesis using Cons.prems(1,3) assms(2) by auto
  next
    case nb: False
    show ?thesis
    proof (cases "hunks g = []")
      case True
      have "P (renderHeaderOnly sha256 options g st)"
        using Cons.prems(1) g True nb by (rule assms(4))
      moreover have "fileLoop sha256 options gs (renderHeaderOnly sha256 options g st) = Some st'"
        using Cons.prems(3) nb True by simp
      ultimately show ?thesis using gs Cons.IH by blast
    next
      case False
      let ?s = "hunkLoop sha256 options g (hunks g)
                  (st, \<lparr>fileShown = False, diffStarted = False, prettyHeaderAdded = False\<rparr>)"
      obtain st1 where st1: "finishFile options g ?s = Some st1"
          "fileLoop sha256 options gs st1 = Some st'"
        using Cons.prems(3) nb False by (auto split: option.splits)
      have "P (fst ?s)"
      proof (rule hunkLoop_inv)
        show "P (fst (st, \<lparr>fileShown = False, diffStarted = False, prettyHeaderAdded = False\<rparr>))"
          using Cons.prems(1) by simp
        show "\<And>st. P st \<Longrightarrow> P (st\<lparr>truncated := True\<rparr>)" by (rule assms(2))
        show "\<And>st loc h. P st \<Longrightarrow> h \<in> set (hunks g) \<Longrightarrow> \<not> budgetReached options st
                \<Longrightarrow> P (fst (renderHunk sha256 options g h (st, loc)))"
          using g assms(3) by blast
      qed
      then have "P st1" using g st1(1) by (rule assms(5))
      then show ?thesis using gs st1(2) Cons.IH by blast
    qed
  qed
qed

lemma fileLoop_inv:
  assumes "P st"
      and "\<And>st. P st \<Longrightarrow> P (st\<lparr>truncated := True\<rparr>)"
      and "\<And>st loc f h. P st \<Longrightarrow> f \<in> set fs \<Longrightarrow> h \<in> set (hunks f)
             \<Longrightarrow> \<not> budgetReached options st
             \<Longrightarrow> P (fst (renderHunk sha256 options f h (st, loc)))"
      and "\<And>st f. P st \<Longrightarrow> f \<in> set fs \<Longrightarrow> hunks f = [] \<Longrightarrow> \<not> budgetReached options st
             \<Longrightarrow> P (renderHeaderOnly sha256 options f st)"
      and "\<And>s st' f. P (fst s) \<Longrightarrow> f \<in> set fs \<Longrightarrow> finishFile options f s = Some st' \<Longrightarrow> P st'"
      and "fileLoop sha256 options fs st = Some st'"
  shows "P st'"
  using assms(1-5) subset_refl assms(6) by (rule fileLoop_inv_aux)

lemma finishFile_fields:
  assumes "finishFile options f s = Some st'"
  shows "shownLines st' = shownLines (fst s)" "truncated st' = truncated (fst s)"
        "blocks st' = blocks (fst s)" "shownHunks st' = shownHunks (fst s)"
  using assms by (auto simp: finishFile_def Let_def split: if_splits option.splits)

lemma renderHeaderOnly_fields:
  "blocks (renderHeaderOnly sha256 options f st)
     = blocks st @ [headerOnlyBlock f]
       @ (if hasUrl options
          then [''GitHub: '' @ buildGithubLink sha256 (the (prUrl options)) (path f) None R] else [])"
  "shownLines (renderHeaderOnly sha256 options f st)
     = shownLines st + countLines (headerOnlyBlock f)
       + (if hasUrl options
          then countLines (''GitHub: '' @ buildGithubLink sha256 (the (prUrl options)) (path f) None R)
          else 0)"
  "truncated (renderHeaderOnly sha256 options f st) = truncated st"
  "shownHunks (renderHeaderOnly sha256 options f st) = shownHunks st"
  by (simp_all add: renderHeaderOnly_def Let_def headerOnlyBlock_def)

lemma chunkLoop_total:
  assumes "0 < chunkSize"
  shows "\<exists>r. chunkLoop start maxLine chunkSize ranges = Some r"
proof (induction "nat (maxLine - start + 1)" arbitrary: start ranges rule: less_induct)
  case less
  show ?case
  proof (cases "start \<le> maxLine")
    case True
    have "nat (maxLine - (start + chunkSize) + 1) < nat (maxLine - start + 1)"
      using True assms by simp
    then obtain r where "chunkLoop (start + chunkSize) maxLine chunkSize
        (ranges @ [showInt start @ ''-'' @ showInt (min maxLine (start + chunkSize - 1))]) = Some r"
      using less by blast
    then show ?thesis using True by (subst chunkLoop.simps) simp
  next
    case False
    then show ?thesis by (subst chunkLoop.simps) simp
  qed
qed

lemma computeFileLineRanges_total:
  "0 < chunkSize \<Longrightarrow> \<exists>r. computeFileLineRanges f chunkSize = Some r"
  using chunkLoop_total
  by (auto simp: computeFileLineRanges_def split: prod.splits option.splits)

lemma finishFile_total:
  "0 < maxLines options \<Longrightarrow> \<exists>st'. finishFile options f s = Some st'"
  using computeFileLineRanges_total [of "maxLines options" f]
  by (auto simp: finishFile_def Let_def)

lemma hunkLoop_nonneg:
  assumes "0 \<le> shownLines (fst s)"
  shows "0 \<le> shownLines (fst (hunkLoop sha256 options f hs s))"
proof (rule hunkLoop_inv [where P = "\<lambda>st. 0 \<le> shownLines st"])
  show "0 \<le> shownLines (fst s)" by (rule assms)
  show "\<And>st. 0 \<le> shownLines st \<Longrightarrow> 0 \<le> shownLines (st\<lparr>truncated := True\<rparr>)" by simp
  show "\<And>st loc h. 0 \<le> shownLines st \<Longrightarrow> h \<in> set hs \<Longrightarrow> \<not> budgetReached options st
          \<Longrightarrow> 0 \<le> shownLines (fst (renderHunk sha256 options f h (st, loc)))"
    using countLines_pos by (simp add: renderHunk_fields add_nonneg_nonneg less_imp_le)
qed

lemma renderHeaderOnly_nonneg:
  "0 \<le> shownLines st \<Longrightarrow> 0 \<le> shownLines (renderHeaderOnly sha256 options f st)"
  using countLines_pos by (simp add: renderHeaderOnly_fields add_nonneg_nonneg less_imp_le)

lemma fileLoop_total:
  assumes "0 \<le> shownLines st"
  shows "\<exists>st'. fileLoop sha256 options fs st = Some st'"
  using assms
proof (induction fs arbitrary: st)
  case Nil
  show ?case by simp
next
  case (Cons f fs)
  show ?case
  proof (cases "budgetReached options st")
    case True
    then show ?thesis by simp
  next
    case nb: False
    then have pos: "0 < maxLines options" using Cons.prems by (simp add: budgetReached_def)
    show ?thesis
    proof (cases "hunks f = []")
      case True
      then show ?thesis using nb Cons.IH [OF renderHeaderOnly_nonneg [OF Cons.prems]] by simp
    next
      case False
      let ?s = "hunkLoop sha256 options f (hunks f)
                  (st, \<lparr>fileShown = False, diffStarted = False, prettyHeaderAdded = False\<rparr>)"
      obtain st1 where st1: "finishFile options f ?s = Some st1"
        using finishFile_total [OF pos] by blast
      have "0 \<le> shownLines (fst ?s)" using Cons.prems by (intro hunkLoop_nonneg) simp
      then have "0 \<le> shownLines st1" using finishFile_fields(1) [OF st1] by simp
      then obtain st' where "fileLoop sha256 options fs st1 = Some st'" using Cons.IH by blast
      then show ?thesis using nb False st1 by simp
    qed
  qed
qed

lemma hunkTitle_clean: "noNewline (path f) \<Longrightarrow> noNewline (hunkTitle f h)"
  by (simp add: hunkTitle_def noNewline_Cons newline_def showInt_clean)

lemma countLines_fullHunkBlock:
  assumes "cleanFile f" and "h \<in> set (hunks f)"
  shows "countLines (fullHunkBlock f h) = 1 + max 1 (int (length (headerLines f @ lines h)))"
proof -
  have t: "noNewline (hunkTitle f h)" using assms(1) by (simp add: cleanFile_def hunkTitle_clean)
  have c: "\<forall>x \<in> set (headerLines f @ lines h). noNewline x"
    using assms by (auto simp: cleanFile_def)
  show ?thesis
    using countLines_joinWith_max [OF c]
    by (simp add: fullHunkBlock_def countLines_append_newline countLines_clean [OF t])
qed

lemma countLines_cutHunkBlock:
  assumes "cleanFile f" and "h \<in> set (hunks f)"
  shows "countLines (cutHunkBlock f h k)
           = 2 + max 1 (int (length (take k (headerLines f @ lines h))))"
proof -
  have t: "noNewline (hunkTitle f h)" using assms(1) by (simp add: cleanFile_def hunkTitle_clean)
  have c: "\<forall>x \<in> set (take k (headerLines f @ lines h)). noNewline x"
    using assms by (auto simp: cleanFile_def dest!: in_set_takeD)
  have "cutHunkBlock f h k
          = hunkTitle f h @ newline # (joinWith [newline] (take k (headerLines f @ lines h))
              @ newline # ''... (truncated)'')"
    by (simp add: cutHunkBlock_def)
  then show ?thesis
    using countLines_joinWith_max [OF c]
    by (simp only: countLines_append_newline countLines_clean [OF t]
          countLines_clean [OF literal_clean(7)])
qed

lemma countLines_hunkLinkBlock:
  assumes "cleanUrl options" and "hasUrl options"
  shows "countLines (hunkLinkBlock sha256 options f h) = 1"
proof -
  obtain u where u: "prUrl options = Some u" "noNewline u"
    using assms by (auto simp: cleanUrl_def hasUrl_def split: option.splits)
  show ?thesis
    by (rule countLines_clean)
       (simp add: hunkLinkBlock_def u noNewline_Cons newline_def buildGithubLink_clean)
qed

lemma renderHunk_bound:
  assumes clean: "cleanFile f" "h \<in> set (hunks f)" "cleanUrl options"
      and nb: "\<not> budgetReached options st"
  shows "shownLines (fst (renderHunk sha256 options f h (st, loc)))
           \<le> maxLines options + 2 + linkLines options"
proof -
  let ?rem = "maxLines options - shownLines st"
  let ?n = "int (length (headerLines f @ lines h))"
  have rem: "1 \<le> ?rem" using nb by (simp add: budgetReached_def)
  have link: "(if hasUrl options then countLines (hunkLinkBlock sha256 options f h) else 0)
                = linkLines options"
    using countLines_hunkLinkBlock [OF clean(3)] by (simp add: linkLines_def)
  have "countLines (hunkBlock options st f h) \<le> ?rem + 2"
  proof (cases "hunkIsCut options st f h")
    case True
    then have lt: "?rem < ?n" by (simp add: hunkIsCut_def)
    have "int (length (take (nat (max 0 (?rem - 1))) (headerLines f @ lines h))) = ?rem - 1"
      using rem lt by simp
    then show ?thesis using True rem
      by (simp add: hunkBlock_def countLines_cutHunkBlock [OF clean(1,2)] del: length_take take_append)
  next
    case False
    then have "?n \<le> ?rem" by (simp add: hunkIsCut_def)
    then show ?thesis using False rem
      by (simp add: hunkBlock_def countLines_fullHunkBlock [OF clean(1,2)])
  qed
  then show ?thesis by (simp add: renderHunk_fields link)
qed

lemma fileLoop_bound:
  assumes clean: "\<forall>f \<in> set fs. cleanFile f" "cleanUrl options"
      and hunks: "\<forall>f \<in> set fs. hunks f \<noteq> []"
      and init: "shownLines st \<le> maxLines options + 2 + linkLines options"
      and run: "fileLoop sha256 options fs st = Some st'"
  shows "shownLines st' \<le> maxLines options + 2 + linkLines options"
proof (rule fileLoop_inv [where P = "\<lambda>st. shownLines st \<le> maxLines options + 2 + linkLines options",
        OF init _ _ _ _ run])
  show "\<And>st. shownLines st \<le> maxLines options + 2 + linkLines options
          \<Longrightarrow> shownLines (st\<lparr>truncated := True\<rparr>) \<le> maxLines options + 2 + linkLines options"
    by simp
  show "\<And>st loc f h. shownLines st \<le> maxLines options + 2 + linkLines options \<Longrightarrow> f \<in> set fs
          \<Longrightarrow> h \<in> set (hunks f) \<Longrightarrow> \<not> budgetReached options st
          \<Longrightarrow> shownLines (fst (renderHunk sha256 options f h (st, loc)))
                \<le> maxLines options + 2 + linkLines options"
    using clean renderHunk_bound by blast
  show "\<And>st f. shownLines st \<le> maxLines options + 2 + linkLines options \<Longrightarrow> f \<in> set fs
          \<Longrightarrow> hunks f = [] \<Longrightarrow> \<not> budgetReached options st
          \<Longrightarrow> shownLines (renderHeaderOnly sha256 options f st)
                \<le> maxLines options + 2 + linkLines options"
    using hunks by blast
  show "\<And>s st' f. shownLines (fst s) \<le> maxLines options + 2 + linkLines options \<Longrightarrow> f \<in> set fs
          \<Longrightarrow> finishFile options f s = Some st'
          \<Longrightarrow> shownLines st' \<le> maxLines options + 2 + linkLines options"
    using finishFile_fields(1) by simp
qed

lemma hunkLoop_untruncated:
  assumes "\<not> truncated (fst (hunkLoop sha256 options f hs s))"
  shows "\<not> truncated (fst s)
         \<and> shownLines (fst (hunkLoop sha256 options f hs s))
             = shownLines (fst s) + sum_list (map (fullHunkLines sha256 options f) hs)"
  using assms
proof (induction hs arbitrary: s)
  case Nil
  then show ?case by simp
next
  case (Cons h hs)
  obtain st loc where s: "s = (st, loc)" by (cases s)
  have nb: "\<not> budgetReached options st" using Cons.prems by (auto simp: s split: if_splits)
  let ?r = "renderHunk sha256 options f h (st, loc)"
  have r: "hunkLoop sha256 options f (h # hs) s = hunkLoop sha256 options f hs ?r"
    using nb by (simp add: s)
  then have ih: "\<not> truncated (fst ?r)"
      "shownLines (fst (hunkLoop sha256 options f hs ?r))
         = shownLines (fst ?r) + sum_list (map (fullHunkLines sha256 options f) hs)"
    using Cons.IH [of ?r] Cons.prems by simp_all
  have nt: "\<not> truncated st" and nc: "\<not> hunkIsCut options st f h"
    using ih(1) by (simp_all add: renderHunk_fields)
  have "shownLines (fst ?r) = shownLines st + fullHunkLines sha256 options f h"
    using nc by (simp add: renderHunk_fields hunkBlock_def fullHunkLines_def)
  then show ?case using nt ih(2) r by (simp add: s)
qed

lemma fileLoop_untruncated:
  assumes "\<forall>f \<in> set fs. hunks f \<noteq> []"
      and "fileLoop sha256 options fs st = Some st'"
      and "\<not> truncated st'"
  shows "shownLines st' = shownLines st + fullLineCount sha256 options fs"
  using assms
proof (induction fs arbitrary: st)
  case Nil
  then show ?case by (simp add: fullLineCount_def)
next
  case (Cons f fs)
  have nb: "\<not> budgetReached options st" using Cons.prems(2,3) by (auto split: if_splits)
  have hf: "hunks f \<noteq> []" using Cons.prems(1) by simp
  let ?s = "hunkLoop sha256 options f (hunks f)
              (st, \<lparr>fileShown = False, diffStarted = False, prettyHeaderAdded = False\<rparr>)"
  obtain st1 where st1: "finishFile options f ?s = Some st1"
      "fileLoop sha256 options fs st1 = Some st'"
    using Cons.prems(2) nb hf by (auto split: option.splits)
  have ih: "shownLines st' = shownLines st1 + fullLineCount sha256 options fs"
    using Cons.IH [OF _ st1(2) Cons.prems(3)] Cons.prems(1) by simp
  have mono: "truncated st1 \<Longrightarrow> truncated st'"
    using st1(2)
    by (rule fileLoop_inv [where P = "\<lambda>x. truncated x", rotated -1])
       (simp_all add: renderHunk_fields renderHeaderOnly_fields finishFile_fields)
  have "\<not> truncated (fst ?s)" using mono Cons.prems(3) finishFile_fields(2) [OF st1(1)] by auto
  then have "shownLines (fst ?s) = shownLines st + fullFileLines sha256 options f"
    using hunkLoop_untruncated [of sha256 options f "hunks f"] by (simp add: fullFileLines_def)
  then show ?case using ih finishFile_fields(1) [OF st1(1)] by (simp add: fullLineCount_def)
qed

lemma splitLines_clean: "\<forall>l \<in> set (splitLines s). noNewline l"
proof (induction s)
  case Nil
  show ?case by simp
next
  case (Cons c s)
  then show ?case
    by (cases "splitLines s") (auto simp: noNewline_Cons)
qed

lemma lazyGroup_suffix: "lazyGroup x cs = Some m \<Longrightarrow> set (snd m) \<subseteq> set cs"
proof (induction x cs rule: lazyGroup.induct)
  case (1 x)
  then show ?case by simp
next
  case (2 x c cs)
  show ?case
  proof (cases "startsWith (c # cs) '' b/'' \<and> drop 3 (c # cs) \<noteq> []
         \<and> (\<forall>d \<in> set (drop 3 (c # cs)). \<not> isLineTerminator d)")
    case True
    then have "m = (x, drop 3 (c # cs))" using "2.prems" by simp
    then show ?thesis using set_drop_subset [of 3 "c # cs"] by simp
  next
    case False
    then have "\<not> isLineTerminator c" "lazyGroup (x @ [c]) cs = Some m"
      using "2.prems" by (auto split: if_splits)
    then have "set (snd m) \<subseteq> set cs" using "2.IH" False by blast
    then show ?thesis by auto
  qed
qed

lemma matchDiffGit_suffix: "matchDiffGit line = Some m \<Longrightarrow> set (snd m) \<subseteq> set line"
proof -
  assume a: "matchDiffGit line = Some m"
  then obtain c cs where d: "drop 13 line = c # cs" "lazyGroup [c] cs = Some m"
    by (auto simp: matchDiffGit_def split: if_splits list.splits)
  have "set (snd m) \<subseteq> set cs" using d(2) by (rule lazyGroup_suffix)
  moreover have "set cs \<subseteq> set (drop 13 line)" using d(1) by auto
  moreover have "set (drop 13 line) \<subseteq> set line" by (rule set_drop_subset)
  ultimately show ?thesis by blast
qed

lemma replaceFirst_subset: "set (replaceFirst pat [] s) \<subseteq> set s"
proof (induction s)
  case Nil
  show ?case by simp
next
  case (Cons c s)
  show ?case using Cons set_drop_subset [of "length pat" "c # s"] by auto
qed

lemma gitPath_clean: "noNewline line \<Longrightarrow> noNewline (gitPath line)"
  using matchDiffGit_suffix [of line] replaceFirst_subset [of "''diff --git ''" line]
  by (auto simp: gitPath_def noNewline_def split: option.splits)

lemma cleanFile_pushHunkLine:
  assumes "\<forall>h \<in> set hs. \<forall>l \<in> set (lines h). noNewline l" and "hs \<noteq> []" and "noNewline line"
  shows "\<forall>h \<in> set (pushHunkLine line hs). \<forall>l \<in> set (lines h). noNewline l"
proof -
  have "\<forall>l \<in> set (lines (last hs)). noNewline l" using assms(1,2) last_in_set by blast
  moreover have "\<forall>h \<in> set (butlast hs). \<forall>l \<in> set (lines h). noNewline l"
    using assms(1) by (meson in_set_butlastD)
  ultimately show ?thesis using assms(3) by (auto simp: pushHunkLine_def)
qed

lemma parseLine_clean:
  assumes "\<forall>f \<in> set (allFiles st). cleanFile f" and "noNewline line"
  shows "\<forall>f \<in> set (allFiles (parseLine st line)). cleanFile f"
proof (cases "startsWith line ''diff --git ''")
  case True
  have "noNewline (gitPath line)" using assms(2) by (rule gitPath_clean)
  then have "cleanFile \<lparr>path = gitPath line, headerLines = [line], hunks = []\<rparr>"
    using assms(2) by (simp add: cleanFile_def)
  then show ?thesis using True assms(1)
    by (auto simp: parseLine_def allFiles_def pushCurrent_def Let_def gitPath_def
             split: option.splits)
next
  case False
  show ?thesis
  proof (cases "currentFile st")
    case None
    then show ?thesis using assms False by (simp add: parseLine_def)
  next
    case (Some f)
    then have cf: "cleanFile f" and rest: "\<forall>g \<in> set (files st). cleanFile g"
      using assms(1) by (auto simp: allFiles_def)
    have ph: "\<forall>h \<in> set (pushHunkLine line (hunks f)). \<forall>l \<in> set (lines h). noNewline l"
      if "hunks f \<noteq> []"
    proof (rule cleanFile_pushHunkLine)
      show "\<forall>h \<in> set (hunks f). \<forall>l \<in> set (lines h). noNewline l"
        using cf by (simp add: cleanFile_def)
      show "hunks f \<noteq> []" by (rule that)
      show "noNewline line" by (rule assms(2))
    qed
    show ?thesis using False Some cf rest ph assms(2)
      by (auto simp: parseLine_def allFiles_def cleanFile_def Let_def)
  qed
qed

lemma foldl_parseLine_clean:
  assumes "\<forall>f \<in> set (allFiles st). cleanFile f" and "\<forall>l \<in> set ls. noNewline l"
  shows "\<forall>f \<in> set (allFiles (foldl parseLine st ls)). cleanFile f"
  using assms
proof (induction ls arbitrary: st)
  case Nil
  then show ?case by simp
next
  case (Cons l ls)
  have "\<forall>f \<in> set (allFiles (parseLine st l)). cleanFile f"
    using Cons.prems by (intro parseLine_clean) simp_all
  then show ?case using Cons.IH Cons.prems(2) by simp
qed

lemma parse_clean: "\<forall>f \<in> set (parseUnifiedDiff diff). cleanFile f"
  using foldl_parseLine_clean [of "\<lparr>files = [], currentFile = None\<rparr>" "splitLines diff"]
    splitLines_clean [of diff]
  by (simp add: parseUnifiedDiff_def files_pushCurrent allFiles_def)

lemma sliceByRange_lines: "sliceByRange r h = Some h' \<Longrightarrow> set (lines h') \<subseteq> set (lines h)"
proof (cases r)
  case None
  assume "sliceByRange r h = Some h'"
  then show ?thesis using None by (simp add: sliceByRange_def)
next
  case (Some lr)
  assume "sliceByRange r h = Some h'"
  then have "lines h' = map fst (filter (keptBySlice lr)
               (replayLines (oldStart h) (newStart h) (lines h)))"
    using Some by (auto simp: sliceByRange_Some split: if_splits)
  then show ?thesis using replay_fst_in by fastforce
qed

lemma applyGrep_lines: "applyGrep grp ctx h = Some h' \<Longrightarrow> set (lines h') \<subseteq> set (lines h)"
proof (cases grp)
  case None
  assume "applyGrep grp ctx h = Some h'"
  then show ?thesis using None by (simp add: applyGrep_def)
next
  case (Some re)
  assume "applyGrep grp ctx h = Some h'"
  then have "h' = h \<or> h' = h\<lparr>lines := grepLines re ctx (lines h)\<rparr>"
    using Some by (auto simp: applyGrep_Some split: if_splits)
  then show ?thesis by (auto simp: grepLines_def)
qed

lemma filterHunk_lines:
  "filterHunk r grp ctx h = Some h' \<Longrightarrow> set (lines h') \<subseteq> set (lines h)"
  using sliceByRange_lines applyGrep_lines
  by (fastforce simp: filterHunk_def split: option.splits)

lemma filterDiffFiles_clean:
  assumes "filterDiffFiles RegExp fs opts = Inr out" and "\<forall>f \<in> set fs. cleanFile f"
  shows "\<forall>g \<in> set out. cleanFile g"
proof
  fix g assume g: "g \<in> set out"
  obtain f grp ctx where f: "f \<in> set fs"
      "g = f\<lparr>hunks := List.map_filter (filterHunk (lineRange opts) grp ctx) (hunks f)\<rparr>"
    using filterDiffFiles_origin [OF assms(1) g] by blast
  have cf: "cleanFile f" using assms(2) f(1) by simp
  have "\<forall>l \<in> set (lines h'). noNewline l"
    if mem: "h' \<in> set (List.map_filter (filterHunk (lineRange opts) grp ctx) (hunks f))" for h'
  proof -
    obtain h where h: "h \<in> set (hunks f)" "filterHunk (lineRange opts) grp ctx h = Some h'"
      using mem by (auto simp: in_set_map_filter)
    then show ?thesis using cf filterHunk_lines [OF h(2)] by (auto simp: cleanFile_def)
  qed
  then show "cleanFile g" using cf by (simp add: f(2) cleanFile_def)
qed

lemma fullLineCount_budget:
  "fullLineCount sha256 (options\<lparr>maxLines := l, maxHunks := h\<rparr>) fs = fullLineCount sha256 options fs"
proof -
  have "fullHunkLines sha256 (options\<lparr>maxLines := l, maxHunks := h\<rparr>) = fullHunkLines sha256 options"
    by (intro ext) (simp add: fullHunkLines_def hasUrl_def hunkLinkBlock_def)
  then have "fullFileLines sha256 (options\<lparr>maxLines := l, maxHunks := h\<rparr>) = fullFileLines sha256 options"
    by (intro ext) (simp add: fullFileLines_def)
  then show ?thesis by (simp add: fullLineCount_def)
qed

lemma formatDiffOutput_state:
  assumes "formatDiffOutput sha256 fs options = Some r" and "fs \<noteq> []"
  shows "\<exists>st. fileLoop sha256 options fs initialState = Some st
              \<and> shownLines (info r) = shownLines st \<and> truncated (info r) = truncated st
              \<and> text' r = joinWith [newline, newline] (finalBlocks st)"
  using assms
  by (auto simp: formatDiffOutput_def RenderInfo.truncate_def split: option.splits)

subsection \<open>The forms of the blocks\<close>

lemma isLinkBlock_link: "isLinkBlock (''GitHub: '' @ s)"
  by (simp add: isLinkBlock_def startsWith_def)

lemma hunkBlock_form:
  assumes "f \<in> set fs" and "h \<in> set (hunks f)" and "\<not> budgetReached options st"
  shows "(hunkIsCut options st f h \<longrightarrow> cutBlock fs (hunkBlock options st f h))
         \<and> (\<not> hunkIsCut options st f h \<longrightarrow> wholeBlock fs (hunkBlock options st f h))"
proof (cases "hunkIsCut options st f h")
  case True
  let ?rem = "maxLines options - shownLines st"
  have "1 \<le> ?rem" using assms(3) by (simp add: budgetReached_def)
  moreover have "?rem < int (length (headerLines f @ lines h))"
    using True by (simp add: hunkIsCut_def)
  ultimately have "nat (max 0 (?rem - 1)) < length (headerLines f @ lines h)" by linarith
  then have "nat (max 0 (?rem - 1)) \<in> set [0..<length (headerLines f @ lines h)]" by simp
  then have "cutBlock fs (cutHunkBlock f h (nat (max 0 (?rem - 1))))"
    unfolding cutBlock_def using assms(1,2) by blast
  then show ?thesis using True by (simp add: hunkBlock_def)
next
  case False
  have "wholeBlock fs (fullHunkBlock f h)"
    unfolding wholeBlock_def using assms(1,2) by blast
  then show ?thesis using False by (simp add: hunkBlock_def)
qed

lemma renderHunk_blocksInv:
  assumes "blocksInv fs st" and "f \<in> set fs" and "h \<in> set (hunks f)"
      and "\<not> budgetReached options st"
  shows "blocksInv fs (fst (renderHunk sha256 options f h (st, loc)))"
proof -
  have link: "wholeBlock fs (hunkLinkBlock sha256 options f h)"
    unfolding wholeBlock_def hunkLinkBlock_def using isLinkBlock_link by blast
  note form = hunkBlock_form [OF assms(2,3,4)]
  show ?thesis
    using assms(1) form link
    by (auto simp: blocksInv_def renderHunk_fields)
qed

lemma renderHeaderOnly_blocksInv:
  assumes "blocksInv fs st" and "f \<in> set fs" and "hunks f = []"
  shows "blocksInv fs (renderHeaderOnly sha256 options f st)"
proof -
  have hb: "wholeBlock fs (headerOnlyBlock f)"
    unfolding wholeBlock_def using assms(2,3) by blast
  have link: "wholeBlock fs (''GitHub: '' @ u)" for u
    unfolding wholeBlock_def using isLinkBlock_link by blast
  show ?thesis
    using assms(1) hb link
    by (auto simp: blocksInv_def renderHeaderOnly_fields simp del: append.simps)
qed

lemma fileLoop_blocksInv:
  assumes "fileLoop sha256 options fs initialState = Some st"
  shows "blocksInv fs st"
proof (rule fileLoop_inv [where P = "blocksInv fs", OF _ _ _ _ _ assms])
  show "blocksInv fs initialState" by (simp add: blocksInv_def initialState_def)
  show "\<And>st. blocksInv fs st \<Longrightarrow> blocksInv fs (st\<lparr>truncated := True\<rparr>)"
    by (simp add: blocksInv_def)
  show "\<And>st loc f h. blocksInv fs st \<Longrightarrow> f \<in> set fs \<Longrightarrow> h \<in> set (hunks f)
          \<Longrightarrow> \<not> budgetReached options st
          \<Longrightarrow> blocksInv fs (fst (renderHunk sha256 options f h (st, loc)))"
    by (rule renderHunk_blocksInv)
  show "\<And>st f. blocksInv fs st \<Longrightarrow> f \<in> set fs \<Longrightarrow> hunks f = [] \<Longrightarrow> \<not> budgetReached options st
          \<Longrightarrow> blocksInv fs (renderHeaderOnly sha256 options f st)"
    by (rule renderHeaderOnly_blocksInv)
  show "\<And>s st' f. blocksInv fs (fst s) \<Longrightarrow> f \<in> set fs \<Longrightarrow> finishFile options f s = Some st'
          \<Longrightarrow> blocksInv fs st'"
    by (simp add: blocksInv_def finishFile_fields)
qed

subsection \<open>Escaped patterns are literals\<close>

lemma isRegexSpecial_syntax: "isRegexSpecial c = isSyntaxCharacter c"
  by (auto simp: isRegexSpecial_def isSyntaxCharacter_def)

lemma literalPattern_escaped:
  "isSyntaxCharacter c \<Longrightarrow>
     literalPattern (backslash # c # rest) = map_option ((#) c) (literalPattern rest)"
  by simp

lemma literalPattern_plain:
  assumes "\<not> isSyntaxCharacter c"
  shows "literalPattern (c # rest) = map_option ((#) c) (literalPattern rest)"
proof (cases rest)
  case Nil
  then show ?thesis using assms by simp
next
  case (Cons d cs)
  have "c \<noteq> backslash" using assms by (auto simp: isSyntaxCharacter_def)
  then show ?thesis using assms Cons by simp
qed

lemma literalPattern_escapeRegex: "literalPattern (escapeRegex p) = Some p"
proof (induction p)
  case Nil
  show ?case by (simp add: escapeRegex_def)
next
  case (Cons c p)
  have e: "escapeRegex (c # p) = (if isSyntaxCharacter c then [backslash, c] else [c]) @ escapeRegex p"
    by (simp add: escapeRegex_def isRegexSpecial_syntax)
  show ?case
  proof (cases "isSyntaxCharacter c")
    case True
    then show ?thesis using Cons literalPattern_escaped [OF True, of "escapeRegex p"]
      by (simp add: e del: literalPattern.simps)
  next
    case False
    then show ?thesis using Cons literalPattern_plain [OF False, of "escapeRegex p"]
      by (simp add: e del: literalPattern.simps)
  qed
qed

section \<open>The claims\<close>

text \<open>
  C8. \<open>hunkLinkTarget\<close> returns the new-file line number of the first added line with
  side \<open>R\<close> if the hunk has an added line; otherwise the old-file line number of the
  first removed line with side \<open>L\<close> if it has a removed line; otherwise
  \<open>(newStart, R)\<close>. The line numbers are those of the replay of the hunk's lines with the
  counters seeded from \<open>oldStart\<close> and \<open>newStart\<close>, which is what \<open>hunkTargetSpec\<close>
  computes.
\<close>

theorem hunkLinkTarget_spec: "hunkLinkTarget hunk = hunkTargetSpec hunk"
  by (simp add: hunkLinkTarget_def hunkTargetSpec_def targetLoop_replay Let_def
      split: option.splits)

theorem hunkLinkTarget_spec_witness:
  "hunkLinkTarget addedLastHunk = (15, R)"
proof -
  have "hunkTargetSpec addedLastHunk = (15, R)" by code_simp
  then show ?thesis by (simp only: hunkLinkTarget_spec)
qed

text \<open>
  C4 (as stated, false). A line that begins with \<open>diff --git\<close> followed by a space and
  does not match the pattern gives a file whose path is the line without that marker,
  not the whole line.
\<close>

theorem parse_unmatched_path_counterexample:
  "startsWith ''diff --git foo'' ''diff --git ''
   \<and> matchDiffGit ''diff --git foo'' = None
   \<and> map path (parseUnifiedDiff ''diff --git foo'') = [''foo'']
   \<and> map path (parseUnifiedDiff ''diff --git foo'') \<noteq> [''diff --git foo'']"
  by code_simp

text \<open>
  C4 (amended). For every line of the input that begins with \<open>diff --git\<close> followed
  by a space and does not match the pattern, \<open>parseUnifiedDiff\<close> creates a file entry
  whose first header line is that line and whose path is the line with the leading
  marker (its first 11 characters) removed; so the path differs from the raw line.
\<close>

theorem parse_unmatched_path:
  assumes "line \<in> set (splitLines diff)"
      and "startsWith line ''diff --git ''"
      and "matchDiffGit line = None"
  shows "\<exists>f \<in> set (parseUnifiedDiff diff).
           hd (headerLines f) = line \<and> path f = drop 11 line \<and> path f \<noteq> line"
proof -
  have gp: "gitPath line = drop 11 line"
    using assms(2,3) by (rule gitPath_unmatched)
  have "(gitPath line, line) \<in> set (map fileKey (parseUnifiedDiff diff))"
    using assms(1,2) by (simp add: parse_keys)
  then obtain f where f: "f \<in> set (parseUnifiedDiff diff)" "fileKey f = (gitPath line, line)"
    by auto
  then show ?thesis using gp drop_changes [OF assms(2)] by (auto simp: fileKey_def)
qed

theorem parse_unmatched_path_witness:
  "''diff --git foo'' \<in> set (splitLines ''diff --git foo'')
   \<and> startsWith ''diff --git foo'' ''diff --git ''
   \<and> matchDiffGit ''diff --git foo'' = None
   \<and> (\<exists>f \<in> set (parseUnifiedDiff ''diff --git foo'').
          hd (headerLines f) = ''diff --git foo'' \<and> path f = drop 11 ''diff --git foo''
          \<and> path f \<noteq> ''diff --git foo'')"
proof -
  have a: "''diff --git foo'' \<in> set (splitLines ''diff --git foo'')" by code_simp
  have b: "startsWith ''diff --git foo'' ''diff --git ''" by code_simp
  have c: "matchDiffGit ''diff --git foo'' = None" by code_simp
  show ?thesis using a b c parse_unmatched_path [OF a b c] by blast
qed

text \<open>
  C6. Filtering a parsed diff with \<open>paths = ["src/a"]\<close> (and no other filter) keeps
  exactly the files whose path is \<open>src/a\<close> or starts with \<open>src/a/\<close>; a file with path
  \<open>src/a.ts\<close> does not pass the path test and a file with path \<open>src/a/b.ts\<close> does.
\<close>

theorem path_filter_exact:
  "filterDiffFiles RegExp (parseUnifiedDiff diff)
      \<lparr>paths = Some [''src/a''], grep = None, grepContext = gc, lineRange = None\<rparr>
    = Inr (filter (\<lambda>f. path f = ''src/a'' \<or> startsWith (path f) ''src/a/'') (parseUnifiedDiff diff))
   \<and> \<not> pathMatches [''src/a''] (f\<lparr>path := ''src/a.ts''\<rparr>)
   \<and> pathMatches [''src/a''] (f\<lparr>path := ''src/a/b.ts''\<rparr>)"
proof -
  let ?P = "\<lambda>f. path f = ''src/a'' \<or> startsWith (path f) ''src/a/''"
  have pm: "pathMatches [''src/a''] = ?P"
    by (rule ext) (simp add: pathMatches_def)
  have hl: "\<forall>f \<in> set (filter ?P (parseUnifiedDiff diff)). headerLines f \<noteq> []"
    using parse_good [of diff] by (simp add: goodFile_def)
  have id: "map (\<lambda>file. file\<lparr>hunks := List.map_filter Some (hunks file)\<rparr>) xs = xs" for xs :: "DiffFile list"
    by (induction xs) (simp_all add: map_filter_Some)
  have keep: "filter (\<lambda>file. hunks file \<noteq> [] \<or> headerLines file \<noteq> []) (filter ?P (parseUnifiedDiff diff))
          = filter ?P (parseUnifiedDiff diff)"
    by (rule filter_True) (use hl in auto)
  have "filterDiffFiles RegExp (parseUnifiedDiff diff)
      \<lparr>paths = Some [''src/a''], grep = None, grepContext = gc, lineRange = None\<rparr>
    = Inr (filter (\<lambda>file. hunks file \<noteq> [] \<or> headerLines file \<noteq> []) (filter ?P (parseUnifiedDiff diff)))"
    unfolding filterDiffFiles_def
    by (simp add: compileGrep_def Let_def filterHunk_plain id pm del: filter_filter)
  then have "filterDiffFiles RegExp (parseUnifiedDiff diff)
      \<lparr>paths = Some [''src/a''], grep = None, grepContext = gc, lineRange = None\<rparr>
    = Inr (filter ?P (parseUnifiedDiff diff))"
    by (simp only: keep)
  moreover have "\<not> pathMatches [''src/a''] (f\<lparr>path := ''src/a.ts''\<rparr>)"
    by (simp add: pathMatches_def startsWith_def)
  moreover have "pathMatches [''src/a''] (f\<lparr>path := ''src/a/b.ts''\<rparr>)"
    by (simp add: pathMatches_def startsWith_def)
  ultimately show ?thesis by blast
qed

theorem path_filter_exact_witness:
  "filterDiffFiles literalRegExp (parseUnifiedDiff twoPathsDiff)
      \<lparr>paths = Some [''src/a''], grep = None, grepContext = None, lineRange = None\<rparr>
    = Inr [\<lparr>path = ''src/a/b.ts'', headerLines = [''diff --git a/src/a/b.ts b/src/a/b.ts''],
            hunks = [\<lparr>header = ''@@ -1 +1 @@'', lines = [''@@ -1 +1 @@'', ''-u'', ''+v''],
                      oldStart = 1, newStart = 1\<rparr>]\<rparr>]
   \<and> map path (parseUnifiedDiff twoPathsDiff) = [''src/a.ts'', ''src/a/b.ts'']"
proof -
  have e: "filter (\<lambda>f. path f = ''src/a'' \<or> startsWith (path f) ''src/a/'') (parseUnifiedDiff twoPathsDiff)
    = [\<lparr>path = ''src/a/b.ts'', headerLines = [''diff --git a/src/a/b.ts b/src/a/b.ts''],
            hunks = [\<lparr>header = ''@@ -1 +1 @@'', lines = [''@@ -1 +1 @@'', ''-u'', ''+v''],
                      oldStart = 1, newStart = 1\<rparr>]\<rparr>]"
    by code_simp
  have p: "map path (parseUnifiedDiff twoPathsDiff) = [''src/a.ts'', ''src/a/b.ts'']"
    by code_simp
  have "filterDiffFiles literalRegExp (parseUnifiedDiff twoPathsDiff)
      \<lparr>paths = Some [''src/a''], grep = None, grepContext = None, lineRange = None\<rparr>
    = Inr (filter (\<lambda>f. path f = ''src/a'' \<or> startsWith (path f) ''src/a/'') (parseUnifiedDiff twoPathsDiff))"
    using path_filter_exact [of literalRegExp twoPathsDiff None] by blast
  then show ?thesis using p by (simp only: e)
qed

text \<open>
  C9. Every hunk produced by \<open>parseUnifiedDiff\<close> has its \<open>@@\<close> header line as the first
  element of \<open>lines\<close> (\<open>headerFirst\<close>); the line-range stage and the grep stage each
  keep that line first and leave \<open>header\<close> unchanged; so every hunk in the output of
  \<open>filterDiffFiles\<close> has it when the input hunks had it, in particular when the input
  is a parsed diff.
\<close>

theorem headerFirst_invariant:
  "(\<forall>f \<in> set (parseUnifiedDiff diff). \<forall>h \<in> set (hunks f). headerFirst h)
   \<and> (headerFirst hunk \<and> sliceByRange rangeOpt hunk = Some ranged
        \<longrightarrow> headerFirst ranged \<and> header ranged = header hunk)
   \<and> (headerFirst hunk \<and> applyGrep grp ctx hunk = Some grepped
        \<longrightarrow> headerFirst grepped \<and> header grepped = header hunk)
   \<and> (filterDiffFiles RegExp fs opts = Inr out
        \<longrightarrow> (\<forall>g \<in> set out. \<forall>h' \<in> set (hunks g).
               \<exists>f \<in> set fs. \<exists>h \<in> set (hunks f).
                 path g = path f
                 \<and> (\<exists>re c. filterHunk (lineRange opts) re c h = Some h')
                 \<and> (headerFirst h \<longrightarrow> headerFirst h' \<and> header h' = header h)))
   \<and> ((\<forall>f \<in> set fs. \<forall>h \<in> set (hunks f). headerFirst h)
          \<and> filterDiffFiles RegExp fs opts = Inr out
        \<longrightarrow> (\<forall>g \<in> set out. \<forall>h \<in> set (hunks g). headerFirst h))
   \<and> (filterDiffFiles RegExp (parseUnifiedDiff diff) opts = Inr out'
        \<longrightarrow> (\<forall>g \<in> set out'. \<forall>h \<in> set (hunks g). headerFirst h))"
proof -
  have p: "\<forall>f \<in> set (parseUnifiedDiff diff). \<forall>h \<in> set (hunks f). headerFirst h"
    using parse_good [of diff] by (simp add: goodFile_def)
  have s: "headerFirst hunk \<and> sliceByRange rangeOpt hunk = Some ranged
        \<longrightarrow> headerFirst ranged \<and> header ranged = header hunk"
    using sliceByRange_headerFirst by blast
  have g: "headerFirst hunk \<and> applyGrep grp ctx hunk = Some grepped
        \<longrightarrow> headerFirst grepped \<and> header grepped = header hunk"
    using applyGrep_headerFirst by blast
  have o: "\<exists>f \<in> set fs. \<exists>h \<in> set (hunks f).
             path g = path f
             \<and> (\<exists>re c. filterHunk (lineRange opts) re c h = Some h')
             \<and> (headerFirst h \<longrightarrow> headerFirst h' \<and> header h' = header h)"
    if run: "filterDiffFiles RegExp fs opts = Inr out"
      and mem: "g \<in> set out" "h' \<in> set (hunks g)" for g h'
  proof -
    obtain f re c where f: "f \<in> set fs"
        "g = f\<lparr>hunks := List.map_filter (filterHunk (lineRange opts) re c) (hunks f)\<rparr>"
      using filterDiffFiles_origin [OF run mem(1)] by blast
    then obtain h where h: "h \<in> set (hunks f)" "filterHunk (lineRange opts) re c h = Some h'"
      using mem(2) by (auto simp: in_set_map_filter)
    have "headerFirst h \<longrightarrow> headerFirst h' \<and> header h' = header h"
      using filterHunk_headerFirst [OF h(2)] by blast
    then show ?thesis using f h by auto
  qed
  have f: "(\<forall>f \<in> set fs. \<forall>h \<in> set (hunks f). headerFirst h)
          \<and> filterDiffFiles RegExp fs opts = Inr out
        \<longrightarrow> (\<forall>g \<in> set out. \<forall>h \<in> set (hunks g). headerFirst h)"
    using filterDiffFiles_headerFirst by blast
  have c: "filterDiffFiles RegExp (parseUnifiedDiff diff) opts = Inr out'
        \<longrightarrow> (\<forall>g \<in> set out'. \<forall>h \<in> set (hunks g). headerFirst h)"
    using filterDiffFiles_headerFirst p by blast
  show ?thesis using p s g o f c by blast
qed

theorem headerFirst_invariant_witness:
  "list_all (\<lambda>f. list_all headerFirst (hunks f)) (parseUnifiedDiff trailingContextDiff)
   \<and> filterDiffFiles literalRegExp (parseUnifiedDiff trailingContextDiff) (rangeOnly 15 15)
       = Inr [\<lparr>path = ''f.txt'',
                headerLines = [''diff --git a/f.txt b/f.txt'', ''--- a/f.txt'', ''+++ b/f.txt''],
                hunks = [\<lparr>header = ''@@ -10,6 +10,7 @@'', lines = [''@@ -10,6 +10,7 @@'', ''+added''],
                          oldStart = 10, newStart = 10\<rparr>]\<rparr>]
   \<and> headerFirst \<lparr>header = ''@@ -10,6 +10,7 @@'', lines = [''@@ -10,6 +10,7 @@'', ''+added''],
                          oldStart = 10, newStart = 10\<rparr>"
proof -
  let ?out = "[\<lparr>path = ''f.txt'',
                headerLines = [''diff --git a/f.txt b/f.txt'', ''--- a/f.txt'', ''+++ b/f.txt''],
                hunks = [\<lparr>header = ''@@ -10,6 +10,7 @@'', lines = [''@@ -10,6 +10,7 @@'', ''+added''],
                          oldStart = 10, newStart = 10\<rparr>]\<rparr>]"
  have e: "filterDiffFiles literalRegExp (parseUnifiedDiff trailingContextDiff) (rangeOnly 15 15) = Inr ?out"
    by code_simp
  note t = headerFirst_invariant [where diff = trailingContextDiff and RegExp = literalRegExp
      and opts = "rangeOnly 15 15" and out' = ?out]
  have a: "\<forall>f \<in> set (parseUnifiedDiff trailingContextDiff). \<forall>h \<in> set (hunks f). headerFirst h"
    using t by blast
  have "\<forall>g \<in> set ?out. \<forall>h \<in> set (hunks g). headerFirst h"
    using t e by blast
  then show ?thesis using a e by (simp add: list_all_iff)
qed

text \<open>
  C3 (as stated, false). With a line range and no grep pattern, a file whose only hunk
  lies outside the range stays in the output with zero hunks, although it had one hunk
  in the input.
\<close>

theorem filter_zero_hunk_files_counterexample:
  "map (\<lambda>f. length (hunks f)) (parseUnifiedDiff trailingContextDiff) = [1]
   \<and> filterDiffFiles literalRegExp (parseUnifiedDiff trailingContextDiff) (rangeOnly 100 200)
       = Inr [\<lparr>path = ''f.txt'',
                headerLines = [''diff --git a/f.txt b/f.txt'', ''--- a/f.txt'', ''+++ b/f.txt''],
                hunks = []\<rparr>]"
  by code_simp

text \<open>
  C3 (amended). A file \<open>g\<close> with zero hunks is in the filter output exactly when no grep
  pattern is active, \<open>g\<close> has a header line, and \<open>g\<close> is an input file selected by the path
  filter with its hunks emptied, all of whose hunks were dropped by the line-range
  stage. So when a grep pattern is active, a file whose hunks were all removed is absent
  from the output; when only a line range removed them, the file stays as a header-only
  entry; and without a line range a file of the output with zero hunks is an input file
  that had none. Every file of a parsed diff has a header line.
\<close>

theorem filter_zero_hunk_files:
  assumes "filterDiffFiles RegExp fs opts = Inr out"
  shows "((g \<in> set out \<and> hunks g = [])
            = (compileGrep RegExp (grep opts) = Inr None \<and> headerLines g \<noteq> []
               \<and> (\<exists>f \<in> set fs.
                      (case paths opts of None \<Rightarrow> True | Some ps \<Rightarrow> ps = [] \<or> pathMatches ps f)
                      \<and> g = f\<lparr>hunks := []\<rparr>
                      \<and> (\<forall>h \<in> set (hunks f). sliceByRange (lineRange opts) h = None))))
         \<and> (g \<in> set out \<and> hunks g = [] \<and> lineRange opts = None \<longrightarrow> g \<in> set fs)
         \<and> (\<forall>f \<in> set (parseUnifiedDiff diff). headerLines f \<noteq> [])"
proof -
  obtain grp where grp: "compileGrep RegExp (grep opts) = Inr grp"
    using assms by (auto simp: filterDiffFiles_def Let_def split: sum.splits)
  define ctx where "ctx = (case grepContext opts of None \<Rightarrow> 0 | Some c \<Rightarrow> c)"
  define P where "P = (\<lambda>f :: DiffFile. case paths opts of None \<Rightarrow> True
                          | Some ps \<Rightarrow> ps = [] \<or> pathMatches ps f)"
  define M where "M = (\<lambda>file :: DiffFile.
      file\<lparr>hunks := List.map_filter (filterHunk (lineRange opts) grp ctx) (hunks file)\<rparr>)"
  define C where "C = (\<lambda>file :: DiffFile. (hunks file \<noteq> [] \<or> headerLines file \<noteq> [])
                          \<and> (grp = None \<or> hunks file \<noteq> []))"
  have pf: "(case paths opts of None \<Rightarrow> fs | Some ps \<Rightarrow> if ps = [] then fs else filter (pathMatches ps) fs)
            = filter P fs"
    by (auto simp: P_def split: option.splits)
  have "filterDiffFiles RegExp fs opts = Inr (filter C (map M (filter P fs)))"
    unfolding filterDiffFiles_def pf
    by (auto simp: grp Let_def ctx_def M_def C_def intro: filter_cong)
  then have o: "out = filter C (map M (filter P fs))" using assms by simp
  have sl: "(List.map_filter (filterHunk (lineRange opts) None ctx) (hunks f) = [])
            = (\<forall>h \<in> set (hunks f). sliceByRange (lineRange opts) h = None)" for f
    by (auto simp: map_filter_Nil_conv filterHunk_def applyGrep_def split: option.splits)
  have mem: "(g \<in> set out) = (C g \<and> (\<exists>f \<in> set fs. P f \<and> g = M f))"
    by (auto simp: o)
  have 1: "(g \<in> set out \<and> hunks g = [])
            = (grp = None \<and> headerLines g \<noteq> []
               \<and> (\<exists>f \<in> set fs. P f \<and> g = f\<lparr>hunks := []\<rparr>
                      \<and> (\<forall>h \<in> set (hunks f). sliceByRange (lineRange opts) h = None)))"
  proof
    assume a: "g \<in> set out \<and> hunks g = []"
    then obtain f where f: "f \<in> set fs" "P f" "g = M f" and c: "C g" using mem by blast
    have n: "grp = None" and hl: "headerLines g \<noteq> []" using c a by (auto simp: C_def)
    have e: "List.map_filter (filterHunk (lineRange opts) None ctx) (hunks f) = []"
      using a f(3) n by (simp add: M_def)
    then have "g = f\<lparr>hunks := []\<rparr>" using f(3) n by (simp add: M_def)
    then show "grp = None \<and> headerLines g \<noteq> []
               \<and> (\<exists>f \<in> set fs. P f \<and> g = f\<lparr>hunks := []\<rparr>
                      \<and> (\<forall>h \<in> set (hunks f). sliceByRange (lineRange opts) h = None))"
      using n hl f(1,2) e sl by blast
  next
    assume b: "grp = None \<and> headerLines g \<noteq> []
               \<and> (\<exists>f \<in> set fs. P f \<and> g = f\<lparr>hunks := []\<rparr>
                      \<and> (\<forall>h \<in> set (hunks f). sliceByRange (lineRange opts) h = None))"
    then obtain f where f: "f \<in> set fs" "P f" "g = f\<lparr>hunks := []\<rparr>"
        "\<forall>h \<in> set (hunks f). sliceByRange (lineRange opts) h = None" by blast
    have "M f = g" using f(3,4) b sl [of f] by (simp add: M_def)
    moreover have "C g" using b f(3) by (simp add: C_def)
    ultimately show "g \<in> set out \<and> hunks g = []" using mem f(1,2,3) by auto
  qed
  have 2: "g \<in> set fs" if t: "g \<in> set out" "hunks g = []" "lineRange opts = None"
  proof -
    obtain f where f: "f \<in> set fs" "g = f\<lparr>hunks := []\<rparr>"
        "\<forall>h \<in> set (hunks f). sliceByRange (lineRange opts) h = None"
      using 1 t(1,2) by blast
    have "hunks f = []"
    proof (rule ccontr)
      assume "hunks f \<noteq> []"
      then obtain h where "h \<in> set (hunks f)" by (cases "hunks f") auto
      then show False using f(3) t(3) by (auto simp: sliceByRange_def)
    qed
    then have "f\<lparr>hunks := []\<rparr> = f" by simp
    then show ?thesis using f(1,2) by simp
  qed
  have 3: "\<forall>f \<in> set (parseUnifiedDiff diff). headerLines f \<noteq> []"
    using parse_good by (auto simp: goodFile_def)
  show ?thesis using 1 2 3 grp by (simp add: P_def)
qed

theorem filter_zero_hunk_files_witness:
  "filterDiffFiles literalRegExp (parseUnifiedDiff trailingContextDiff) (rangeOnly 100 200)
     = Inr [\<lparr>path = ''f.txt'',
              headerLines = [''diff --git a/f.txt b/f.txt'', ''--- a/f.txt'', ''+++ b/f.txt''],
              hunks = []\<rparr>]
   \<and> compileGrep literalRegExp (grep (rangeOnly 100 200)) = Inr None
   \<and> (\<exists>f \<in> set (parseUnifiedDiff trailingContextDiff).
         hunks f \<noteq> []
         \<and> \<lparr>path = ''f.txt'',
              headerLines = [''diff --git a/f.txt b/f.txt'', ''--- a/f.txt'', ''+++ b/f.txt''],
              hunks = []\<rparr> = f\<lparr>hunks := []\<rparr>
         \<and> list_all (\<lambda>h. sliceByRange (lineRange (rangeOnly 100 200)) h = None) (hunks f))"
proof -
  let ?g = "\<lparr>path = ''f.txt'',
              headerLines = [''diff --git a/f.txt b/f.txt'', ''--- a/f.txt'', ''+++ b/f.txt''],
              hunks = []\<rparr>"
  let ?o = "rangeOnly 100 200"
  have e: "filterDiffFiles literalRegExp (parseUnifiedDiff trailingContextDiff) ?o = Inr [?g]"
    by code_simp
  have n: "\<forall>f \<in> set (parseUnifiedDiff trailingContextDiff). hunks f \<noteq> []" by code_simp
  have m: "?g \<in> set [?g] \<and> hunks ?g = []" by simp
  have "compileGrep literalRegExp (grep ?o) = Inr None
        \<and> (\<exists>f \<in> set (parseUnifiedDiff trailingContextDiff).
              ?g = f\<lparr>hunks := []\<rparr>
              \<and> (\<forall>h \<in> set (hunks f). sliceByRange (lineRange ?o) h = None))"
    using filter_zero_hunk_files [OF e, of ?g trailingContextDiff] m by blast
  then show ?thesis using e n by (simp only: list_all_iff) blast
qed

text \<open>
  C7. The \<open>RegExp\<close> constructor belongs to the language; what is assumed of it is
  what the language guarantees for a literal pattern (only ordinary characters and
  syntax characters preceded by a backslash): it is accepted and matches the lines that
  contain its text. Then, for every pattern that the constructor rejects, the escaped
  pattern built by \<open>compileGrep\<close> is such a literal for the original pattern, so
  \<open>compileGrep\<close> returns the matcher of the lines that contain the pattern as a
  substring, \<open>filterDiffFiles\<close> returns a result and not an error, and that result is
  the one obtained by matching the pattern literally.
\<close>

theorem grep_fallback_literal:
  assumes lang: "\<forall>q lit. literalPattern q = Some lit
                   \<longrightarrow> RegExp q = Some (\<lambda>line. strIncludes line lit)"
      and fails: "RegExp p = None"
      and opt: "grep opts = Some p"
  shows "RegExp (escapeRegex p) = Some (\<lambda>line. strIncludes line p)
         \<and> compileGrep RegExp (Some p) = Inr (Some (\<lambda>line. strIncludes line p))
         \<and> (\<exists>out. filterDiffFiles RegExp fs opts = Inr out)
         \<and> filterDiffFiles RegExp fs opts
             = filterDiffFiles (\<lambda>_. Some (\<lambda>line. strIncludes line p)) fs opts"
proof -
  have esc: "RegExp (escapeRegex p) = Some (\<lambda>line. strIncludes line p)"
    using lang literalPattern_escapeRegex by blast
  have ne: "p \<noteq> []"
  proof
    assume "p = []"
    then show False using fails esc by (simp add: escapeRegex_def)
  qed
  have c: "compileGrep RegExp (Some p) = Inr (Some (\<lambda>line. strIncludes line p))"
    using fails esc ne by (simp add: compileGrep_def)
  have c': "compileGrep (\<lambda>_. Some (\<lambda>line. strIncludes line p)) (Some p)
              = Inr (Some (\<lambda>line. strIncludes line p))"
    using ne by (simp add: compileGrep_def)
  have eq: "filterDiffFiles RegExp fs opts
             = filterDiffFiles (\<lambda>_. Some (\<lambda>line. strIncludes line p)) fs opts"
    by (simp add: filterDiffFiles_def opt c c')
  have "\<exists>out. filterDiffFiles RegExp fs opts = Inr out"
    by (simp add: filterDiffFiles_def opt c Let_def)
  then show ?thesis using esc c eq by blast
qed

theorem grep_fallback_literal_witness:
  "literalRegExp ''a(b'' = None
   \<and> escapeRegex ''a(b'' = [CHR ''a'', backslash, CHR ''('', CHR ''b'']
   \<and> compileGrep literalRegExp (Some ''a(b'') = Inr (Some (\<lambda>line. strIncludes line ''a(b''))
   \<and> (\<exists>out. filterDiffFiles literalRegExp (parseUnifiedDiff twoPathsDiff)
          \<lparr>paths = None, grep = Some ''a(b'', grepContext = None, lineRange = None\<rparr> = Inr out)"
proof -
  let ?o = "\<lparr>paths = None, grep = Some ''a(b'', grepContext = None, lineRange = None\<rparr>"
  have l: "\<forall>q lit. literalPattern q = Some lit
             \<longrightarrow> literalRegExp q = Some (\<lambda>line. strIncludes line lit)"
    by (simp add: literalRegExp_def)
  have a: "literalRegExp ''a(b'' = None"
    by (simp add: literalRegExp_def isSyntaxCharacter_def backslash_def)
  have e: "escapeRegex ''a(b'' = [CHR ''a'', backslash, CHR ''('', CHR ''b'']"
    by (simp add: escapeRegex_def isRegexSpecial_def backslash_def)
  have c: "grep ?o = Some ''a(b''" by simp
  show ?thesis
    using a e grep_fallback_literal [OF l a c, of "parseUnifiedDiff twoPathsDiff"] by blast
qed

text \<open>
  C5 (as stated, false). A hunk that starts at new-file line 10, whose only added line
  is at new-file line 15 and is followed by a context line (new-file line 16), is not
  removed by the line range 16 to 20: the context line is kept with the header.
\<close>

theorem range_slice_boundary_counterexample:
  "map (\<lambda>f. map hunkLinkTarget (hunks f)) (parseUnifiedDiff trailingContextDiff) = [[(15, R)]]
   \<and> map (\<lambda>f. map newStart (hunks f)) (parseUnifiedDiff trailingContextDiff) = [[10]]
   \<and> map (\<lambda>f. map (\<lambda>h. length (filter isAdded (lines h))) (hunks f))
        (parseUnifiedDiff trailingContextDiff) = [[1]]
   \<and> filterDiffFiles literalRegExp (parseUnifiedDiff trailingContextDiff) (rangeOnly 16 20)
       = Inr [\<lparr>path = ''f.txt'',
                headerLines = [''diff --git a/f.txt b/f.txt'', ''--- a/f.txt'', ''+++ b/f.txt''],
                hunks = [\<lparr>header = ''@@ -10,6 +10,7 @@'', lines = [''@@ -10,6 +10,7 @@'', '' c16''],
                          oldStart = 10, newStart = 10\<rparr>]\<rparr>]"
  by code_simp

text \<open>
  C5 (amended). For every hunk with \<open>newStart = 10\<close> whose first line is its only line
  beginning with \<open>@@\<close> and whose only added line falls at new-file line 15, the line
  range 15 to 15 retains exactly the header line and that added line; the line range
  16 to 20 removes the hunk exactly when no context line of the hunk falls at new-file
  lines 16 to 20 (context lines inside the range are kept, with the header).
\<close>

theorem range_slice_boundary:
  assumes ns: "newStart hunk = 10"
      and ls: "lines hunk = hdr # body"
      and hdr: "startsWith hdr ''@@''"
      and body: "\<forall>l \<in> set body. \<not> startsWith l ''@@''"
      and added: "filter (\<lambda>e. isAdded (fst e))
                    (replayLines (oldStart hunk) (newStart hunk) (lines hunk)) = [(a, ol, 15)]"
  shows "sliceByRange (Some \<lparr>rangeStart = 15, rangeEnd = 15\<rparr>) hunk = Some (hunk\<lparr>lines := [hdr, a]\<rparr>)
       \<and> filterDiffFiles RegExp [file\<lparr>hunks := [hunk]\<rparr>] (rangeOnly 15 15)
            = Inr [file\<lparr>hunks := [hunk\<lparr>lines := [hdr, a]\<rparr>]\<rparr>]
       \<and> (sliceByRange (Some \<lparr>rangeStart = 16, rangeEnd = 20\<rparr>) hunk = None
            \<longleftrightarrow> \<not> (\<exists>e \<in> set (replayLines (oldStart hunk) (newStart hunk) (lines hunk)).
                      isContext (fst e) \<and> 16 \<le> newNo e \<and> newNo e \<le> 20))
       \<and> (sliceByRange (Some \<lparr>rangeStart = 16, rangeEnd = 20\<rparr>) hunk = None
            \<longrightarrow> (\<forall>g h. filterDiffFiles RegExp [file\<lparr>hunks := [hunk]\<rparr>] (rangeOnly 16 20) = Inr g
                   \<longrightarrow> h \<notin> set (concat (map hunks g))))"
proof -
  let ?rp = "replayLines (oldStart hunk) (newStart hunk) (lines hunk)"
  let ?rp' = "replayLines (oldStart hunk) (newStart hunk) body"
  let ?l15 = "\<lparr>rangeStart = 15, rangeEnd = 15\<rparr>"
  let ?l16 = "\<lparr>rangeStart = 16, rangeEnd = 20\<rparr>"
  have hk: "\<not> advancesOld hdr" "\<not> advancesNew hdr" "\<not> isAdded hdr"
    using hdr lineKind_exclusive [of hdr] by (auto simp: advancesOld_def advancesNew_def)
  have rp: "?rp = (hdr, oldStart hunk, newStart hunk) # ?rp'"
    using hk by (simp add: ls)
  have a_in: "(a, ol, 15) \<in> set (filter (\<lambda>e. advancesNew (fst e)) ?rp')"
  proof -
    have "(a, ol, 15) \<in> set (filter (\<lambda>e. isAdded (fst e)) ?rp)" by (simp add: added)
    then show ?thesis using hk by (auto simp: rp advancesNew_def)
  qed
  have body_fst: "\<forall>e \<in> set ?rp'. \<not> startsWith (fst e) ''@@''"
    using body replay_fst_in by blast
  have "filter (keptBySlice ?l15) ?rp' = filter (\<lambda>e. newNo e = newNo (a, ol, 15)) (filter (\<lambda>e. advancesNew (fst e)) ?rp')"
    using body_fst by (auto simp: keptBySlice_def inRange_def newNo_def intro!: filter_cong)
  also have "\<dots> = [(a, ol, 15)]"
    using replay_new_distinct a_in by (rule filter_unique_key)
  finally have k15: "filter (keptBySlice ?l15) ?rp = [(hdr, oldStart hunk, newStart hunk), (a, ol, 15)]"
    using hdr by (simp add: rp keptBySlice_def)
  have any15: "\<exists>e \<in> set ?rp. inRangeEntry ?l15 e"
    using a_in by (auto simp: rp inRangeEntry_def inRange_def newNo_def intro!: bexI [of _ "(a, ol, 15)"])
  have part1: "sliceByRange (Some ?l15) hunk = Some (hunk\<lparr>lines := [hdr, a]\<rparr>)"
    using any15 by (simp add: sliceByRange_Some k15)
  have added_only: "newNo e = 15" if "e \<in> set ?rp" "isAdded (fst e)" for e
  proof -
    have "e \<in> set (filter (\<lambda>e. isAdded (fst e)) ?rp)" using that by simp
    then show ?thesis by (simp add: added newNo_def)
  qed
  have eqv: "(\<exists>e \<in> set ?rp. inRangeEntry ?l16 e)
        \<longleftrightarrow> (\<exists>e \<in> set ?rp. isContext (fst e) \<and> 16 \<le> newNo e \<and> newNo e \<le> 20)"
    using added_only by (auto simp: inRangeEntry_def inRange_def advancesNew_def)
  have "sliceByRange (Some ?l16) hunk = None \<longleftrightarrow> \<not> (\<exists>e \<in> set ?rp. inRangeEntry ?l16 e)"
    by (simp add: sliceByRange_Some)
  then have part2: "sliceByRange (Some ?l16) hunk = None
            \<longleftrightarrow> \<not> (\<exists>e \<in> set ?rp. isContext (fst e) \<and> 16 \<le> newNo e \<and> newNo e \<le> 20)"
    by (simp only: eqv)
  have part3: "filterDiffFiles RegExp [file\<lparr>hunks := [hunk]\<rparr>] (rangeOnly 15 15)
            = Inr [file\<lparr>hunks := [hunk\<lparr>lines := [hdr, a]\<rparr>]\<rparr>]"
    by (simp add: rangeOnly_def filterDiffFiles_single part1)
  have part4: "h \<notin> set (concat (map hunks g))"
    if "sliceByRange (Some ?l16) hunk = None"
       "filterDiffFiles RegExp [file\<lparr>hunks := [hunk]\<rparr>] (rangeOnly 16 20) = Inr g" for g h
    using that by (auto simp: rangeOnly_def filterDiffFiles_single split: if_splits)
  show ?thesis using part1 part2 part3 part4 by blast
qed

theorem range_slice_boundary_witness:
  "newStart addedLastHunk = 10
   \<and> lines addedLastHunk = ''@@ -10,5 +10,6 @@'' # ['' c10'', '' c11'', '' c12'', '' c13'', '' c14'', ''+added'']
   \<and> startsWith ''@@ -10,5 +10,6 @@'' ''@@''
   \<and> list_all (\<lambda>l. \<not> startsWith l ''@@'') ['' c10'', '' c11'', '' c12'', '' c13'', '' c14'', ''+added'']
   \<and> filter (\<lambda>e. isAdded (fst e))
        (replayLines (oldStart addedLastHunk) (newStart addedLastHunk) (lines addedLastHunk))
       = [(''+added'', 15, 15)]
   \<and> sliceByRange (Some \<lparr>rangeStart = 15, rangeEnd = 15\<rparr>) addedLastHunk
       = Some (addedLastHunk\<lparr>lines := [''@@ -10,5 +10,6 @@'', ''+added'']\<rparr>)
   \<and> sliceByRange (Some \<lparr>rangeStart = 16, rangeEnd = 20\<rparr>) addedLastHunk = None"
proof -
  have a: "newStart addedLastHunk = 10" by code_simp
  have b: "lines addedLastHunk = ''@@ -10,5 +10,6 @@'' # ['' c10'', '' c11'', '' c12'', '' c13'', '' c14'', ''+added'']"
    by code_simp
  have c: "startsWith ''@@ -10,5 +10,6 @@'' ''@@''" by code_simp
  have d: "\<forall>l \<in> set ['' c10'', '' c11'', '' c12'', '' c13'', '' c14'', ''+added'']. \<not> startsWith l ''@@''"
    by code_simp
  have e: "filter (\<lambda>e. isAdded (fst e))
        (replayLines (oldStart addedLastHunk) (newStart addedLastHunk) (lines addedLastHunk))
       = [(''+added'', 15, 15)]"
    by code_simp
  have n: "\<not> (\<exists>e \<in> set (replayLines (oldStart addedLastHunk) (newStart addedLastHunk) (lines addedLastHunk)).
             isContext (fst e) \<and> 16 \<le> newNo e \<and> newNo e \<le> 20)"
    by code_simp
  have d': "list_all (\<lambda>l. \<not> startsWith l ''@@'') ['' c10'', '' c11'', '' c12'', '' c13'', '' c14'', ''+added'']"
    using d by (simp only: list_all_iff)
  show ?thesis
    using a b c d' e n range_slice_boundary [OF a b c d e] by blast
qed

text \<open>
  C2 (the code departs from the claim). Claimed: filtering the result of a filter again
  with the same options returns it unchanged. A hunk sliced by a line range keeps the
  \<open>oldStart\<close> and \<open>newStart\<close> of the whole hunk, although its first retained line no
  longer stands there. On the diff below, whose added line is new-file line 15, the
  first pass with the range 15 to 15 keeps the hunk header and the added line; the
  second pass numbers that line from 10, finds it outside the range and drops the hunk,
  so the two results differ. The stale start also shows when the sliced diff is
  rendered: the link target of the hunk is line 10 and the added line is printed as
  line 10, where the unfiltered diff gives line 15. No grep pattern is given, so this
  holds whatever the regular expression engine is.
\<close>

theorem filter_idempotent_failing_input:
  "filterDiffFiles RegExp (parseUnifiedDiff trailingContextDiff) (rangeOnly 15 15)
     = Inr [\<lparr>path = ''f.txt'',
              headerLines = [''diff --git a/f.txt b/f.txt'', ''--- a/f.txt'', ''+++ b/f.txt''],
              hunks = [\<lparr>header = ''@@ -10,6 +10,7 @@'', lines = [''@@ -10,6 +10,7 @@'', ''+added''],
                        oldStart = 10, newStart = 10\<rparr>]\<rparr>]
   \<and> filterDiffFiles RegExp
       [\<lparr>path = ''f.txt'',
          headerLines = [''diff --git a/f.txt b/f.txt'', ''--- a/f.txt'', ''+++ b/f.txt''],
          hunks = [\<lparr>header = ''@@ -10,6 +10,7 @@'', lines = [''@@ -10,6 +10,7 @@'', ''+added''],
                    oldStart = 10, newStart = 10\<rparr>]\<rparr>] (rangeOnly 15 15)
     = Inr [\<lparr>path = ''f.txt'',
              headerLines = [''diff --git a/f.txt b/f.txt'', ''--- a/f.txt'', ''+++ b/f.txt''],
              hunks = []\<rparr>]
   \<and> map hunkLinkTarget (concat (map hunks (parseUnifiedDiff trailingContextDiff))) = [(15, R)]
   \<and> hunkLinkTarget \<lparr>header = ''@@ -10,6 +10,7 @@'', lines = [''@@ -10,6 +10,7 @@'', ''+added''],
                      oldStart = 10, newStart = 10\<rparr> = (10, R)
   \<and> map_option diffText
         (formatDiffOutput sha256 (parseUnifiedDiff trailingContextDiff)
            \<lparr>prUrl = None, maxLines = 150, maxHunks = 8\<rparr>)
     = Some ''  f.txt\<newline> 10 c10\<newline> 11 c11\<newline> 12 c12\<newline> 13 c13\<newline> 14 c14\<newline>+15 added\<newline> 16 c16''
   \<and> map_option diffText
         (formatDiffOutput sha256
            [\<lparr>path = ''f.txt'',
               headerLines = [''diff --git a/f.txt b/f.txt'', ''--- a/f.txt'', ''+++ b/f.txt''],
               hunks = [\<lparr>header = ''@@ -10,6 +10,7 @@'', lines = [''@@ -10,6 +10,7 @@'', ''+added''],
                         oldStart = 10, newStart = 10\<rparr>]\<rparr>]
            \<lparr>prUrl = None, maxLines = 150, maxHunks = 8\<rparr>)
     = Some ''  f.txt\<newline>+10 added''"
  by code_simp

text \<open>
  With the substring matcher as the engine: filtering the filtered diff again does not
  return it.
\<close>

theorem filter_idempotent_failing_input_witness:
  "filterDiffFiles literalRegExp (parseUnifiedDiff trailingContextDiff) (rangeOnly 15 15)
     = Inr [\<lparr>path = ''f.txt'',
              headerLines = [''diff --git a/f.txt b/f.txt'', ''--- a/f.txt'', ''+++ b/f.txt''],
              hunks = [\<lparr>header = ''@@ -10,6 +10,7 @@'', lines = [''@@ -10,6 +10,7 @@'', ''+added''],
                        oldStart = 10, newStart = 10\<rparr>]\<rparr>]
   \<and> filterDiffFiles literalRegExp
       [\<lparr>path = ''f.txt'',
          headerLines = [''diff --git a/f.txt b/f.txt'', ''--- a/f.txt'', ''+++ b/f.txt''],
          hunks = [\<lparr>header = ''@@ -10,6 +10,7 @@'', lines = [''@@ -10,6 +10,7 @@'', ''+added''],
                    oldStart = 10, newStart = 10\<rparr>]\<rparr>] (rangeOnly 15 15)
     \<noteq> filterDiffFiles literalRegExp (parseUnifiedDiff trailingContextDiff) (rangeOnly 15 15)"
  using filter_idempotent_failing_input [of literalRegExp zeroDigest] by simp

text \<open>
  C1 (as stated, false). A parsed diff whose complete rendering counts 20 lines is
  rendered with \<open>maxLines = 10\<close>: the cut block has its title line, nine diff lines and
  the truncation marker, so \<open>shownLines\<close> is 11. And a parsed diff that consists of one
  file without hunks and renders to 20 lines is rendered whole, with \<open>shownLines = 20\<close>
  and \<open>truncated = false\<close>: the budget is checked before the file, when nothing is
  shown yet, and the block of its header lines is added uncut.
\<close>

theorem render_truncation_counterexample:
  "renderCounts (formatDiffOutput zeroDigest (parseUnifiedDiff twentyLineDiff)
       \<lparr>prUrl = None, maxLines = 150, maxHunks = 8\<rparr>) = Some (20, False)
   \<and> renderCounts (formatDiffOutput zeroDigest (parseUnifiedDiff twentyLineDiff)
       \<lparr>prUrl = None, maxLines = 10, maxHunks = 8\<rparr>) = Some (11, True)
   \<and> renderCounts (formatDiffOutput zeroDigest (parseUnifiedDiff headerOnlyDiff)
       \<lparr>prUrl = None, maxLines = 150, maxHunks = 8\<rparr>) = Some (20, False)
   \<and> renderCounts (formatDiffOutput zeroDigest (parseUnifiedDiff headerOnlyDiff)
       \<lparr>prUrl = None, maxLines = 10, maxHunks = 8\<rparr>) = Some (20, False)"
  by code_simp

text \<open>
  C1 (amended). Take a parsed (and possibly filtered) diff in which every file has at
  least one hunk, a base URL without a newline if one is given, and suppose its
  rendering under some budget is complete (not truncated) and counts 20 lines. Then
  rendering it with \<open>maxLines = 10\<close> returns a result with \<open>truncated = true\<close> and
  \<open>shownLines \<le> 13\<close> (\<open>\<le> 12\<close> without a base URL): the budget is checked before each
  block, and the title line, the truncation marker and the link line of the last block
  are counted on top of it. Every run on the same inputs returns the same \<open>text\<close>,
  \<open>diffText\<close> and \<open>info\<close>.
\<close>

theorem render_truncation:
  assumes parsed: "filterDiffFiles RegExp (parseUnifiedDiff diff) fopts = Inr fs"
      and hunks: "\<forall>f \<in> set fs. hunks f \<noteq> []"
      and url: "cleanUrl options"
      and ml: "maxLines options = 10"
      and full: "formatDiffOutput sha256 fs (options\<lparr>maxLines := l, maxHunks := h\<rparr>) = Some r0"
      and nt0: "\<not> truncated (info r0)"
      and n20: "shownLines (info r0) = 20"
  shows "\<exists>r. formatDiffOutput sha256 fs options = Some r
             \<and> truncated (info r)
             \<and> shownLines (info r) \<le> 13
             \<and> (\<not> hasUrl options \<longrightarrow> shownLines (info r) \<le> 12)
             \<and> (\<forall>r'. formatDiffOutput sha256 fs options = Some r'
                    \<longrightarrow> text' r' = text' r \<and> diffText r' = diffText r \<and> info r' = info r)"
proof -
  have ne: "fs \<noteq> []"
  proof
    assume "fs = []"
    then have "shownLines (info r0) = 0" using full by (auto simp: formatDiffOutput_def)
    then show False using n20 by simp
  qed
  obtain st0 where st0: "fileLoop sha256 (options\<lparr>maxLines := l, maxHunks := h\<rparr>) fs initialState = Some st0"
      "shownLines (info r0) = shownLines st0" "truncated (info r0) = truncated st0"
    using formatDiffOutput_state [OF full ne] by blast
  have "shownLines st0 = shownLines initialState
          + fullLineCount sha256 (options\<lparr>maxLines := l, maxHunks := h\<rparr>) fs"
    using hunks st0(1) nt0 st0(3) by (intro fileLoop_untruncated) simp_all
  then have total: "fullLineCount sha256 options fs = 20"
    using n20 st0(2) by (simp add: fullLineCount_budget initialState_def)
  obtain st where st: "fileLoop sha256 options fs initialState = Some st"
    using fileLoop_total [of initialState sha256 options fs] by (auto simp: initialState_def)
  define r where "r = \<lparr>text' = joinWith [newline, newline] (finalBlocks st),
                       diffText = joinWith [newline] (diffBlocks st),
                       info = RenderInfo.truncate st\<rparr>"
  have r: "formatDiffOutput sha256 fs options = Some r"
    using ne st by (simp add: formatDiffOutput_def r_def)
  have ri: "shownLines (info r) = shownLines st" "truncated (info r) = truncated st"
    by (simp_all add: r_def RenderInfo.truncate_def)
  have clean: "\<forall>f \<in> set fs. cleanFile f"
    using parsed parse_clean by (rule filterDiffFiles_clean)
  have ll: "0 \<le> linkLines options" "linkLines options \<le> 1"
           "\<not> hasUrl options \<Longrightarrow> linkLines options = 0"
    by (simp_all add: linkLines_def)
  have bound: "shownLines st \<le> maxLines options + 2 + linkLines options"
    using clean url hunks _ st
    by (rule fileLoop_bound) (use ml ll in \<open>simp add: initialState_def\<close>)
  have tr: "truncated st"
  proof (rule ccontr)
    assume "\<not> truncated st"
    then have "shownLines st = shownLines initialState + fullLineCount sha256 options fs"
      using hunks st by (intro fileLoop_untruncated) simp_all
    then show False using total bound ml ll by (simp add: initialState_def)
  qed
  show ?thesis
    using r ri tr bound ml ll by (intro exI [of _ r]) auto
qed

theorem render_truncation_witness:
  "filterDiffFiles literalRegExp (parseUnifiedDiff twentyLineDiff) noFilter
     = Inr (parseUnifiedDiff twentyLineDiff)
   \<and> list_all (\<lambda>f. hunks f \<noteq> []) (parseUnifiedDiff twentyLineDiff)
   \<and> cleanUrl \<lparr>prUrl = None, maxLines = 10, maxHunks = 8\<rparr>
   \<and> renderCounts (formatDiffOutput zeroDigest (parseUnifiedDiff twentyLineDiff)
         \<lparr>prUrl = None, maxLines = 150, maxHunks = 8\<rparr>) = Some (20, False)
   \<and> (\<exists>r. formatDiffOutput zeroDigest (parseUnifiedDiff twentyLineDiff)
              \<lparr>prUrl = None, maxLines = 10, maxHunks = 8\<rparr> = Some r
            \<and> truncated (info r) \<and> shownLines (info r) \<le> 13)"
proof -
  let ?o = "\<lparr>prUrl = None, maxLines = 10, maxHunks = 8\<rparr>"
  have a: "filterDiffFiles literalRegExp (parseUnifiedDiff twentyLineDiff) noFilter
             = Inr (parseUnifiedDiff twentyLineDiff)"
    by code_simp
  have b: "\<forall>f \<in> set (parseUnifiedDiff twentyLineDiff). hunks f \<noteq> []" by code_simp
  have c: "cleanUrl ?o" by (simp add: cleanUrl_def)
  have d: "maxLines ?o = 10" by simp
  have e: "renderCounts (formatDiffOutput zeroDigest (parseUnifiedDiff twentyLineDiff)
             \<lparr>prUrl = None, maxLines = 150, maxHunks = 8\<rparr>) = Some (20, False)"
    by code_simp
  then obtain r0 where r0:
      "formatDiffOutput zeroDigest (parseUnifiedDiff twentyLineDiff) (?o\<lparr>maxLines := 150, maxHunks := 8\<rparr>)
         = Some r0"
      "\<not> truncated (info r0)" "shownLines (info r0) = 20"
    by (auto simp: renderCounts_def)
  have b': "list_all (\<lambda>f. hunks f \<noteq> []) (parseUnifiedDiff twentyLineDiff)"
    using b by (simp add: list_all_iff)
  show ?thesis
    using a b' c e render_truncation [OF a b c d r0] by blast
qed

text \<open>
  C10 (as stated, false). With \<open>maxLines = 3\<close> the only hunk block of the diff is cut
  after two lines: it holds the first two of the three header lines of the file and
  none of the lines of the hunk.
\<close>

theorem hunk_blocks_header_lines_counterexample:
  "map headerLines (parseUnifiedDiff trailingContextDiff)
     = [[''diff --git a/f.txt b/f.txt'', ''--- a/f.txt'', ''+++ b/f.txt'']]
   \<and> renderText (formatDiffOutput zeroDigest (parseUnifiedDiff trailingContextDiff)
       \<lparr>prUrl = None, maxLines = 3, maxHunks = 8\<rparr>)
     = Some (''== f.txt (hunk +10)\<newline>diff --git a/f.txt b/f.txt\<newline>--- a/f.txt\<newline>... (truncated)''
             @ ''\<newline>\<newline>---\<newline>Diff output truncated. The diff has already been shown to the user; do NOT show another diff unless the user explicitly asks.'')"
  by code_simp

text \<open>
  C10 (amended). The \<open>text\<close> of a rendering is the list of blocks joined by blank lines
  (with the truncation note at the end when \<open>truncated\<close>). Every block is a link line,
  the block of a file without hunks, a whole hunk block (the title line, then the
  complete \<open>headerLines\<close> of the file, then all the lines of the hunk), or a cut hunk
  block (the title line, the first \<open>k\<close> lines of the header lines followed by the hunk
  lines, with \<open>k\<close> less than their number, and the truncation marker); when the
  rendering is not truncated every hunk block is whole. So a file with several whole
  hunk blocks repeats its header lines in each. \<open>shownLines\<close> is the sum of the line
  counts of the blocks, so the repeated header lines count toward it: a whole hunk
  block of a file without embedded newlines counts one line more than its header lines
  and hunk lines together.
\<close>

theorem hunk_blocks_header_lines:
  assumes "fs \<noteq> []"
  shows "\<exists>r st. formatDiffOutput sha256 fs options = Some r
            \<and> fileLoop sha256 options fs initialState = Some st
            \<and> text' r = joinWith [newline, newline] (finalBlocks st)
            \<and> shownLines (info r) = shownLines st
            \<and> truncated (info r) = truncated st
            \<and> shownLines st = sum_list (map countLines (blocks st))
            \<and> (\<forall>b \<in> set (blocks st). wholeBlock fs b \<or> cutBlock fs b)
            \<and> (\<not> truncated st \<longrightarrow> (\<forall>b \<in> set (blocks st). wholeBlock fs b))
            \<and> (\<forall>f \<in> set fs. \<forall>h \<in> set (hunks f). cleanFile f \<longrightarrow>
                  countLines (fullHunkBlock f h)
                    = 1 + max 1 (int (length (headerLines f)) + int (length (lines h))))"
proof -
  obtain st where run: "fileLoop sha256 options fs initialState = Some st"
    using fileLoop_total [of initialState sha256 options fs] by (auto simp: initialState_def)
  then obtain r where r: "formatDiffOutput sha256 fs options = Some r"
    using assms by (simp add: formatDiffOutput_def)
  obtain st' where st': "fileLoop sha256 options fs initialState = Some st'"
      "shownLines (info r) = shownLines st'" "truncated (info r) = truncated st'"
      "text' r = joinWith [newline, newline] (finalBlocks st')"
    using formatDiffOutput_state [OF r assms] by blast
  have st: "shownLines (info r) = shownLines st" "truncated (info r) = truncated st"
      "text' r = joinWith [newline, newline] (finalBlocks st)"
    using st' run by simp_all
  have inv: "blocksInv fs st" using run by (rule fileLoop_blocksInv)
  have cnt: "\<forall>f \<in> set fs. \<forall>h \<in> set (hunks f). cleanFile f \<longrightarrow>
                  countLines (fullHunkBlock f h)
                    = 1 + max 1 (int (length (headerLines f)) + int (length (lines h)))"
    using countLines_fullHunkBlock by simp
  show ?thesis using r run st inv cnt unfolding blocksInv_def by blast
qed

theorem hunk_blocks_header_lines_witness:
  "parseUnifiedDiff twentyLineDiff \<noteq> []
   \<and> renderCounts (formatDiffOutput zeroDigest (parseUnifiedDiff twentyLineDiff)
         \<lparr>prUrl = None, maxLines = 150, maxHunks = 8\<rparr>) = Some (20, False)
   \<and> (\<exists>r st. formatDiffOutput zeroDigest (parseUnifiedDiff twentyLineDiff)
             \<lparr>prUrl = None, maxLines = 150, maxHunks = 8\<rparr> = Some r
          \<and> fileLoop zeroDigest \<lparr>prUrl = None, maxLines = 150, maxHunks = 8\<rparr>
                (parseUnifiedDiff twentyLineDiff) initialState = Some st
          \<and> text' r = joinWith [newline, newline] (finalBlocks st)
          \<and> sum_list (map countLines (blocks st)) = 20
          \<and> list_all (wholeBlock (parseUnifiedDiff twentyLineDiff)) (blocks st))"
proof -
  let ?o = "\<lparr>prUrl = None, maxLines = 150, maxHunks = 8\<rparr>"
  let ?fs = "parseUnifiedDiff twentyLineDiff"
  have ne: "?fs \<noteq> []" by code_simp
  have c: "renderCounts (formatDiffOutput zeroDigest ?fs ?o) = Some (20, False)" by code_simp
  obtain r st where r: "formatDiffOutput zeroDigest ?fs ?o = Some r"
      "fileLoop zeroDigest ?o ?fs initialState = Some st"
      "text' r = joinWith [newline, newline] (finalBlocks st)"
      "shownLines (info r) = shownLines st" "truncated (info r) = truncated st"
      "shownLines st = sum_list (map countLines (blocks st))"
      "\<not> truncated st \<longrightarrow> (\<forall>b \<in> set (blocks st). wholeBlock ?fs b)"
    using hunk_blocks_header_lines [OF ne, of zeroDigest ?o] by blast
  have "shownLines (info r) = 20" "\<not> truncated (info r)"
    using c r(1) by (simp_all add: renderCounts_def)
  then have "sum_list (map countLines (blocks st)) = 20"
      "list_all (wholeBlock ?fs) (blocks st)"
    using r(4-7) by (simp_all add: list_all_iff)
  then show ?thesis using ne c r(1-3) by blast
qed


end
